theory Spec2Isabelle
  imports Main "HOL-Library.Word" "HOL-Library.Sublist"
begin

section \<open>The JWK store of \<open>lib/jwk-store\<close>\<close>

text \<open>
  The module keeps JSON Web Keys in a \<open>KeyRotator\<close> (a private array \<open>#keys\<close> of
  object references) behind the \<open>JWKStore\<close> facade. The functions hand out and store
  references to the same objects, and the export copies objects before it deletes members,
  so the model has an explicit store of objects: an address is an index into the list of
  all objects allocated so far, and nothing is ever freed.

  A JWK is a JavaScript object; every member this module reads, writes or deletes
  (\<open>kid\<close>, \<open>alg\<close>, \<open>d\<close>, \<open>p\<close>, \<open>q\<close>, \<open>dp\<close>, \<open>dq\<close>, \<open>qi\<close>) is declared
  \<open>string\<close> by the \<open>JWK\<close> interface, and an absent member reads as \<open>undefined\<close>. The
  model is a partial map from member names to strings; \<open>None\<close> is \<open>undefined\<close>.
\<close>

subsection \<open>Objects and the store\<close>

type_synonym jwk = "string \<rightharpoonup> string"

type_synonym addr = nat

type_synonym heap = "jwk list"

text \<open>
  The errors the module throws: the three \<open>Error\<close>s of \<open>JWKStore.add\<close> (the second is
  also thrown by \<open>KeyRotator.toJSON\<close> and carries the offending \<open>alg\<close>), the failure
  of \<open>assertIsString\<close>, the \<open>TypeError\<close> of the JavaScript runtime, and a rejection
  coming from one of the jose functions.
\<close>

datatype error =
    UnspecifiedAlg
  | UnsupportedAlg string
  | InvalidJwkType
  | MissingAlgField
  | TypeError
  | JoseError string

text \<open>
  What \<open>KeyRotator.toJSON\<close> pushes onto its result array: a reference to an object or,
  in one corner of the JavaScript semantics, a string.
\<close>

datatype jsval = Ref addr | Str string

text \<open>
  The state of a \<open>JWKStore\<close>: the objects, and the \<open>#keys\<close> array of its
  \<open>KeyRotator\<close>.
\<close>

record store =
  objects :: heap
  keys :: "addr list"

text \<open>A new object (an object literal, or the result of a spread) gets the next address.\<close>

definition alloc :: "jwk \<Rightarrow> heap \<Rightarrow> addr \<times> heap" where
  "alloc obj h = (length h, h @ [obj])"

subsection \<open>Random key identifiers\<close>

text \<open>
  \<open>randomBytes(40).toString('hex')\<close>: the source of randomness is a parameter, the
  function \<open>randomBytes\<close> of Node's \<open>crypto\<close>, which returns as many bytes as it is asked
  for. The hex encoding of a buffer writes two lower-case digits for each byte.
\<close>

definition hexDigit :: "nat \<Rightarrow> char" where
  "hexDigit n = ''0123456789abcdef'' ! (n mod 16)"

definition toHex :: "8 word list \<Rightarrow> string" where
  "toHex bs = concat (map (\<lambda>b. [hexDigit (unat b div 16), hexDigit (unat b mod 16)]) bs)"

definition generateRandomKid :: "(nat \<Rightarrow> 8 word list) \<Rightarrow> string" where
  "generateRandomKid randomBytes = toHex (randomBytes 40)"

subsection \<open>Removing members\<close>

text \<open>
  \<open>removeKey\<close> spreads the object into a new one and deletes the member from the copy.
  \<open>removeKeys\<close> is \<open>keys.reduce((r, k) => removeKey(k, r), o)\<close>: a left fold that
  starts from the object itself, so that each key makes one more copy.
\<close>

definition removeKey :: "string \<Rightarrow> addr \<Rightarrow> heap \<Rightarrow> addr \<times> heap" where
  "removeKey k obj h =
     (let (x, h1) = alloc (h ! obj) h
      in (x, h1[x := (h1 ! x)(k := None)]))"

fun removeKeys :: "string list \<Rightarrow> addr \<Rightarrow> heap \<Rightarrow> addr \<times> heap" where
  "removeKeys [] obj h = (obj, h)"
| "removeKeys (k # ks) obj h = (let (r, h1) = removeKey k obj h in removeKeys ks r h1)"

type_synonym jwkTransformer = "addr \<Rightarrow> heap \<Rightarrow> addr \<times> heap"

definition RsaPrivateFieldsRemover :: jwkTransformer where
  "RsaPrivateFieldsRemover jwk = removeKeys [''d'', ''p'', ''q'', ''dp'', ''dq'', ''qi''] jwk"

definition EcdsaPrivateFieldsRemover :: jwkTransformer where
  "EcdsaPrivateFieldsRemover jwk = removeKeys [''d''] jwk"

definition EddsaPrivateFieldsRemover :: jwkTransformer where
  "EddsaPrivateFieldsRemover jwk = removeKeys [''d''] jwk"

text \<open>The own properties of the object literal, in the order they are written.\<close>

definition privateToPublicTransformerMap :: "(string \<times> jwkTransformer) list" where
  "privateToPublicTransformerMap =
     [(''RS256'', RsaPrivateFieldsRemover),
      (''RS384'', RsaPrivateFieldsRemover),
      (''RS512'', RsaPrivateFieldsRemover),
      (''PS256'', RsaPrivateFieldsRemover),
      (''PS384'', RsaPrivateFieldsRemover),
      (''PS512'', RsaPrivateFieldsRemover),
      (''ES256'', EcdsaPrivateFieldsRemover),
      (''ES256K'', EcdsaPrivateFieldsRemover),
      (''ES384'', EcdsaPrivateFieldsRemover),
      (''ES512'', EcdsaPrivateFieldsRemover),
      (''EdDSA'', EddsaPrivateFieldsRemover)]"

text \<open>\<open>Object.keys\<close> lists the own enumerable properties.\<close>

definition supportedAlgs :: "string list" where
  "supportedAlgs = map fst privateToPublicTransformerMap"

text \<open>
  The map is an object literal, so its prototype is \<open>Object.prototype\<close>, and both the
  \<open>in\<close> operator and a property read look there after the own properties. These are the
  properties of \<open>Object.prototype\<close>.
\<close>

definition objectPrototypeProperties :: "string list" where
  "objectPrototypeProperties =
     [''constructor'', ''__defineGetter__'', ''__defineSetter__'', ''hasOwnProperty'',
      ''__lookupGetter__'', ''__lookupSetter__'', ''isPrototypeOf'',
      ''propertyIsEnumerable'', ''toString'', ''valueOf'', ''__proto__'',
      ''toLocaleString'']"

text \<open>\<open>alg in privateToPublicTransformerMap\<close>.\<close>

definition inTransformerMap :: "string \<Rightarrow> bool" where
  "inTransformerMap alg \<longleftrightarrow>
     alg \<in> set supportedAlgs \<or> alg \<in> set objectPrototypeProperties"

text \<open>
  \<open>const cleaner = privateToPublicTransformerMap[key.alg]; cleaner(key)\<close>, reached only
  when \<open>key.alg in privateToPublicTransformerMap\<close>. An own property is one of the three
  removers. An inherited one is called as a plain function, with \<open>this\<close> undefined:
  \<open>constructor\<close> is \<open>Object\<close>, which returns the object it is given;
  \<open>toString\<close> returns \<open>[object Undefined]\<close>; \<open>__proto__\<close> reads as
  \<open>Object.prototype\<close>, which is not callable; every other one converts \<open>this\<close> to an
  object first. The last two cases throw a \<open>TypeError\<close>.
\<close>

definition callCleaner :: "string \<Rightarrow> addr \<Rightarrow> heap \<Rightarrow> error + jsval \<times> heap" where
  "callCleaner alg key h =
     (case map_of privateToPublicTransformerMap alg of
        Some cleaner \<Rightarrow> (let (r, h1) = cleaner key h in Inr (Ref r, h1))
      | None \<Rightarrow>
          if alg = ''constructor'' then Inr (Ref key, h)
          else if alg = ''toString'' then Inr (Str ''[object Undefined]'', h)
          else Inl TypeError)"

text \<open>
  Modelled from the spec: \<open>assertIsString\<close> of \<open>./helpers\<close> is imported but its source
  is not part of the module. By its name, its use and the spec's error
  \<open>MissingRequiredField\<close> (a record lacks \<open>alg\<close> at export time) it throws an error
  with the given message unless its argument is a string; the error to throw stands for
  the message.
\<close>

definition assertIsString :: "string option \<Rightarrow> error \<Rightarrow> error + string" where
  "assertIsString input err = (case input of None \<Rightarrow> Inl err | Some s \<Rightarrow> Inr s)"

subsection \<open>KeyRotator\<close>

text \<open>\<open>Array.prototype.findIndex\<close>: the first index whose element passes, or \<open>-1\<close>.\<close>

fun findIndex :: "('a \<Rightarrow> bool) \<Rightarrow> 'a list \<Rightarrow> int" where
  "findIndex p [] = -1"
| "findIndex p (x # xs) =
     (if p x then 0 else (let i = findIndex p xs in if i = -1 then -1 else i + 1))"

text \<open>
  \<open>Array.prototype.splice(start, deleteCount)\<close> with no items to insert: a negative
  start counts from the end, both arguments are clamped to the array, and the result is the
  removed elements together with the array that remains.
\<close>

definition splice :: "int \<Rightarrow> nat \<Rightarrow> 'a list \<Rightarrow> 'a list \<times> 'a list" where
  "splice start deleteCount xs =
     (let len = int (length xs);
          actualStart = nat (if start < 0 then max (len + start) 0 else min start len);
          actualDeleteCount = min deleteCount (length xs - actualStart)
      in (take actualDeleteCount (drop actualStart xs),
          take actualStart xs @ drop (actualStart + actualDeleteCount) xs))"

definition findNext :: "string option \<Rightarrow> store \<Rightarrow> int" where
  "findNext kid s =
     (if length (keys s) = 0 then -1
      else case kid of
             None \<Rightarrow> 0
           | Some k \<Rightarrow> findIndex (\<lambda>x. (objects s ! x) ''kid'' = Some k) (keys s))"

text \<open>
  \<open>const [key] = this.#keys.splice(i, 1); this.#keys.push(key); return key\<close>. With an
  index past the end nothing is removed and the source would push \<open>undefined\<close>; the only
  caller, \<open>next\<close>, passes an index that \<open>findNext\<close> found, which is inside the array
  (lemma \<open>findNext_range\<close>), and the model leaves the array alone in that case.
\<close>

definition moveToTheEnd :: "int \<Rightarrow> store \<Rightarrow> addr option \<times> store" where
  "moveToTheEnd i s =
     (let (removed, rest) = splice i 1 (keys s)
      in case removed of
           [] \<Rightarrow> (None, s)
         | key # _ \<Rightarrow> (Some key, s\<lparr>keys := rest @ [key]\<rparr>))"

definition KeyRotator_add :: "addr \<Rightarrow> store \<Rightarrow> store" where
  "KeyRotator_add key s =
     (let pos = findNext ((objects s ! key) ''kid'') s;
          ks = (if pos > -1 then snd (splice pos 1 (keys s)) else keys s)
      in s\<lparr>keys := ks @ [key]\<rparr>)"

definition KeyRotator_next :: "string option \<Rightarrow> store \<Rightarrow> addr option \<times> store" where
  "KeyRotator_next kid s =
     (let i = findNext kid s
      in if i = -1 then (None, s) else moveToTheEnd i s)"

text \<open>
  The body of the \<open>for\<close> loop of \<open>toJSON\<close> for one key: what it pushes, or what it
  throws.
\<close>

definition toJSON_body :: "bool \<Rightarrow> addr \<Rightarrow> heap \<Rightarrow> error + jsval \<times> heap" where
  "toJSON_body includePrivateFields key h =
     (if includePrivateFields then (let (c, h1) = alloc (h ! key) h in Inr (Ref c, h1))
      else case assertIsString ((h ! key) ''alg'') MissingAlgField of
             Inl e \<Rightarrow> Inl e
           | Inr alg \<Rightarrow>
               if \<not> inTransformerMap alg then Inl (UnsupportedAlg alg)
               else callCleaner alg key h)"

text \<open>
  The loop, with the result array \<open>keys\<close> of the source as the accumulator \<open>acc\<close>. A
  throw ends it; the objects allocated so far stay in the store, unreachable.
\<close>

fun toJSON_loop :: "bool \<Rightarrow> addr list \<Rightarrow> jsval list \<Rightarrow> heap \<Rightarrow> (error + jsval list) \<times> heap" where
  "toJSON_loop includePrivateFields [] acc h = (Inr acc, h)"
| "toJSON_loop includePrivateFields (key # rest) acc h =
     (case toJSON_body includePrivateFields key h of
        Inl e \<Rightarrow> (Inl e, h)
      | Inr (v, h1) \<Rightarrow> toJSON_loop includePrivateFields rest (acc @ [v]) h1)"

definition KeyRotator_toJSON :: "bool \<Rightarrow> store \<Rightarrow> (error + jsval list) \<times> store" where
  "KeyRotator_toJSON includePrivateFields s =
     (let (r, h) = toJSON_loop includePrivateFields (keys s) [] (objects s)
      in (r, s\<lparr>objects := h\<rparr>))"

subsection \<open>JWKStore\<close>

text \<open>The optional second argument of \<open>generate\<close>, \<open>{ kid?: string; crv?: string }\<close>.\<close>

record opts =
  opts_kid :: "string option"
  opts_crv :: "string option"

text \<open>\<open>normalizeKey\<close> writes a \<open>kid\<close> into the object unless it has one.\<close>

definition normalizeKey :: "(nat \<Rightarrow> 8 word list) \<Rightarrow> addr \<Rightarrow> opts option \<Rightarrow> heap \<Rightarrow> heap" where
  "normalizeKey randomBytes jwk os h =
     (if (h ! jwk) ''kid'' \<noteq> None then h
      else if os \<noteq> None \<and> opts_kid (the os) \<noteq> None
           then h[jwk := (h ! jwk)(''kid'' \<mapsto> the (opts_kid (the os)))]
           else h[jwk := (h ! jwk)(''kid'' \<mapsto> generateRandomKid randomBytes)])"

text \<open>
  The jose functions are parameters. \<open>generateKeyPair\<close> gets the algorithm and the
  \<open>crv\<close> of its options and resolves to a pair of key handles or rejects;
  \<open>fromKeyLike\<close> turns a handle into the members of a new JWK; \<open>parseJwk\<close> reads the
  members of a JWK and resolves to a key handle, of which the module inspects whether it is
  a \<open>KeyObject\<close> and its \<open>type\<close>. A rejection of theirs carries its message and
  is an error of its own kind, \<open>JoseError\<close>, which the module passes on. Each
  \<open>await\<close> is a point where other calls on the store could run; the model runs one
  call at a time.
\<close>

record 'k keyPair =
  publicKey :: 'k
  privateKey :: 'k

datatype keyObjectType = Secret | Public | Private

datatype keyLike = KeyObject keyObjectType | NotKeyObject

fun instanceofKeyObject :: "keyLike \<Rightarrow> bool" where
  "instanceofKeyObject (KeyObject t) = True"
| "instanceofKeyObject NotKeyObject = False"

fun keyType :: "keyLike \<Rightarrow> keyObjectType option" where
  "keyType (KeyObject t) = Some t"
| "keyType NotKeyObject = None"

definition JWKStore_generate ::
  "(string \<Rightarrow> string option \<Rightarrow> string + 'k keyPair) \<Rightarrow> ('k \<Rightarrow> string + jwk) \<Rightarrow>
   (nat \<Rightarrow> 8 word list) \<Rightarrow> string \<Rightarrow> opts option \<Rightarrow> store \<Rightarrow> (error + addr) \<times> store" where
  "JWKStore_generate generateKeyPair fromKeyLike randomBytes alg os s =
     (let generateOpts = (if os \<noteq> None \<and> opts_crv (the os) \<noteq> None
                          then opts_crv (the os) else None)
      in case generateKeyPair alg generateOpts of
           Inl e \<Rightarrow> (Inl (JoseError e), s)
         | Inr pair \<Rightarrow>
            (case fromKeyLike (privateKey pair) of
               Inl e \<Rightarrow> (Inl (JoseError e), s)
             | Inr members \<Rightarrow>
                (let (jwk, h1) = alloc members (objects s);
                     h2 = h1[jwk := (h1 ! jwk)(''alg'' \<mapsto> alg)];
                     h3 = normalizeKey randomBytes jwk os h2
                 in (Inr jwk, KeyRotator_add jwk (s\<lparr>objects := h3\<rparr>)))))"

definition JWKStore_add ::
  "(jwk \<Rightarrow> string + keyLike) \<Rightarrow> (nat \<Rightarrow> 8 word list) \<Rightarrow> addr \<Rightarrow> store \<Rightarrow>
   (error + addr) \<times> store" where
  "JWKStore_add parseJwk randomBytes jwk s =
     (let (jwkUse, h1) = alloc (objects s ! jwk) (objects s);
          h2 = normalizeKey randomBytes jwkUse None h1;
          s1 = s\<lparr>objects := h2\<rparr>
      in case (h2 ! jwkUse) ''alg'' of
           None \<Rightarrow> (Inl UnspecifiedAlg, s1)
         | Some alg \<Rightarrow>
             if alg \<notin> set supportedAlgs then (Inl (UnsupportedAlg alg), s1)
             else (case parseJwk (h2 ! jwkUse) of
                     Inl e \<Rightarrow> (Inl (JoseError e), s1)
                   | Inr parsedKey \<Rightarrow>
                       if \<not> instanceofKeyObject parsedKey \<or> keyType parsedKey \<noteq> Some Private
                       then (Inl InvalidJwkType, s1)
                       else (Inr jwkUse, KeyRotator_add jwkUse s1)))"

definition JWKStore_get :: "string option \<Rightarrow> store \<Rightarrow> addr option \<times> store" where
  "JWKStore_get kid s = KeyRotator_next kid s"

definition JWKStore_toJSON :: "bool \<Rightarrow> store \<Rightarrow> (error + jsval list) \<times> store" where
  "JWKStore_toJSON includePrivateFields s = KeyRotator_toJSON includePrivateFields s"

subsection \<open>Sequences of calls\<close>

text \<open>\<open>n\<close> calls of \<open>next()\<close> in a row, with the records they return.\<close>

fun nextN :: "nat \<Rightarrow> store \<Rightarrow> addr option list \<times> store" where
  "nextN 0 s = ([], s)"
| "nextN (Suc n) s =
     (let (r, s1) = KeyRotator_next None s;
          (rs, s2) = nextN n s1
      in (r # rs, s2))"

text \<open>A sequence of calls of \<open>next\<close>, each with its kid or with none.\<close>

fun selections :: "string option list \<Rightarrow> store \<Rightarrow> store" where
  "selections [] s = s"
| "selections (kid # kids) s = selections kids (snd (KeyRotator_next kid s))"

subsection \<open>Invariants of the store\<close>

text \<open>Every reference in \<open>#keys\<close> points to an allocated object.\<close>

definition wellFormed :: "store \<Rightarrow> bool" where
  "wellFormed s \<longleftrightarrow> (\<forall>a\<in>set (keys s). a < length (objects s))"

text \<open>
  Uniqueness of kids in the rotator: no two entries of \<open>#keys\<close> read the same
  \<open>kid\<close> (an absent kid counts as a value of its own).
\<close>

definition uniqueKids :: "store \<Rightarrow> bool" where
  "uniqueKids s \<longleftrightarrow> distinct (map (\<lambda>x. (objects s ! x) ''kid'') (keys s))"

text \<open>Every record in the rotator has a \<open>kid\<close> member.\<close>

definition kidsPresent :: "store \<Rightarrow> bool" where
  "kidsPresent s \<longleftrightarrow> (\<forall>a\<in>set (keys s). (objects s ! a) ''kid'' \<noteq> None)"

subsection \<open>The export, as seen and as specified\<close>

text \<open>
  What a consumer of the export sees of one entry: the members of the object behind a
  reference, or the string.
\<close>

definition contents :: "heap \<Rightarrow> jsval \<Rightarrow> jwk + string" where
  "contents h v = (case v of Ref a \<Rightarrow> Inl (h ! a) | Str t \<Rightarrow> Inr t)"

text \<open>
  The spec's table of the private fields of each algorithm family: \<open>d, p, q, dp, dq, qi\<close>
  for RSA (PKCS1 and PSS variants), \<open>d\<close> for ECDSA (all curve sizes), \<open>d\<close> for EdDSA.
\<close>

definition specPrivateFields :: "string \<Rightarrow> string set" where
  "specPrivateFields alg =
     (if alg \<in> {''RS256'', ''RS384'', ''RS512'', ''PS256'', ''PS384'', ''PS512''}
      then {''d'', ''p'', ''q'', ''dp'', ''dq'', ''qi''}
      else if alg \<in> {''ES256'', ''ES256K'', ''ES384'', ''ES512''} then {''d''}
      else if alg = ''EdDSA'' then {''d''}
      else {})"

section \<open>Properties\<close>

subsection \<open>Array primitives\<close>

lemma splice_in_range:
  "0 \<le> i \<Longrightarrow> nat i < length xs \<Longrightarrow>
   splice i 1 xs = ([xs ! nat i], take (nat i) xs @ drop (Suc (nat i)) xs)"
  by (auto simp: splice_def Let_def min_def take_Suc_conv_app_nth)

lemma findIndex_range: "findIndex p xs = -1 \<or> (0 \<le> findIndex p xs \<and> nat (findIndex p xs) < length xs)"
  by (induction xs) (auto simp: Let_def)

lemma findIndex_none: "findIndex p xs = -1 \<longleftrightarrow> (\<forall>x\<in>set xs. \<not> p x)"
proof (induction xs)
  case Nil
  show ?case by simp
next
  case (Cons x xs)
  have "findIndex p xs = -1 \<or> 0 \<le> findIndex p xs" using findIndex_range [of p xs] by auto
  with Cons show ?case by (auto simp: Let_def)
qed

lemma findIndex_first:
  "findIndex p xs \<noteq> -1 \<Longrightarrow>
   p (xs ! nat (findIndex p xs)) \<and> (\<forall>j < nat (findIndex p xs). \<not> p (xs ! j))"
proof (induction xs)
  case Nil
  then show ?case by simp
next
  case (Cons x xs)
  show ?case
  proof (cases "p x")
    case True
    then show ?thesis by simp
  next
    case False
    with Cons.prems have ne: "findIndex p xs \<noteq> -1" by (auto simp: Let_def split: if_splits)
    then have ge: "0 \<le> findIndex p xs" using findIndex_range [of p xs] by auto
    from False ne have eq: "findIndex p (x # xs) = findIndex p xs + 1" by (simp add: Let_def)
    from ge have n: "nat (findIndex p xs + 1) = Suc (nat (findIndex p xs))" by simp
    from Cons.IH [OF ne] False show ?thesis
      unfolding eq n by (auto simp: nth_Cons split: nat.splits)
  qed
qed

lemma findNext_range:
  "findNext kid s = -1 \<or> (0 \<le> findNext kid s \<and> nat (findNext kid s) < length (keys s))"
  using findIndex_range [of "\<lambda>x. (objects s ! x) ''kid'' = Some (the kid)" "keys s"]
  by (auto simp: findNext_def split: option.splits)

subsection \<open>Round-robin selection\<close>

lemma next_unpinned:
  "keys s = x # xs \<Longrightarrow> KeyRotator_next None s = (Some x, s\<lparr>keys := xs @ [x]\<rparr>)"
  by (simp add: KeyRotator_next_def findNext_def moveToTheEnd_def splice_def)

lemma next_unpinned_empty: "keys s = [] \<Longrightarrow> KeyRotator_next None s = (None, s)"
  by (simp add: KeyRotator_next_def findNext_def)

lemma nextN_rotate:
  "n \<le> length (keys s) \<Longrightarrow>
   nextN n s = (map Some (take n (keys s)), s\<lparr>keys := rotate n (keys s)\<rparr>)"
proof (induction n arbitrary: s)
  case 0
  then show ?case by simp
next
  case (Suc n)
  then obtain x xs where k: "keys s = x # xs" by (cases "keys s") auto
  let ?s1 = "s\<lparr>keys := xs @ [x]\<rparr>"
  have "n \<le> length (keys ?s1)" using Suc.prems k by simp
  from Suc.IH [OF this] Suc.prems k show ?case
    by (simp add: next_unpinned rotate1_rotate_swap rotate_append take_Suc_conv_app_nth)
qed


lemma nextN_cycle: "nextN (length (keys s)) s = (map Some (keys s), s)"
  by (simp add: nextN_rotate)

lemma nextN_add:
  "nextN (m + n) s =
     (let (r1, s1) = nextN m s; (r2, s2) = nextN n s1 in (r1 @ r2, s2))"
  by (induction m arbitrary: s) (auto simp: Let_def split: prod.splits)

lemma add_new_kid:
  assumes "(objects s ! key) ''kid'' = Some k"
    and "\<forall>x\<in>set (keys s). (objects s ! x) ''kid'' \<noteq> Some k"
  shows "KeyRotator_add key s = s\<lparr>keys := keys s @ [key]\<rparr>"
proof -
  have "findNext (Some k) s = -1"
    using assms(2) by (simp add: findNext_def findIndex_none)
  then show ?thesis using assms(1) by (simp add: KeyRotator_add_def)
qed

lemma fold_add_distinct:
  assumes "distinct (map (\<lambda>r. (h ! r) ''kid'') (ks @ rs))"
    and "\<forall>r\<in>set rs. (h ! r) ''kid'' \<noteq> None"
  shows "fold KeyRotator_add rs \<lparr>objects = h, keys = ks\<rparr> = \<lparr>objects = h, keys = ks @ rs\<rparr>"
  using assms
proof (induction rs arbitrary: ks)
  case Nil
  then show ?case by simp
next
  case (Cons r rs)
  from Cons.prems(2) obtain k where k: "(h ! r) ''kid'' = Some k" by auto
  have "\<forall>x\<in>set ks. (h ! x) ''kid'' \<noteq> Some k"
    using Cons.prems(1) k by (auto simp: image_iff)
  with k have step: "KeyRotator_add r \<lparr>objects = h, keys = ks\<rparr> = \<lparr>objects = h, keys = ks @ [r]\<rparr>"
    using add_new_kid [of "\<lparr>objects = h, keys = ks\<rparr>" r k] by simp
  have "distinct (map (\<lambda>r. (h ! r) ''kid'') ((ks @ [r]) @ rs))" using Cons.prems(1) by simp
  from Cons.IH [OF this] Cons.prems(2) show ?case by (simp add: step)
qed

text \<open>
  C1. In every state of the rotator, as many calls of \<open>next()\<close> with no kid as it
  holds records return the records one after the other in the order of \<open>#keys\<close> and
  leave the rotator as it was before them, so that as many calls again return the same
  sequence again. Records \<open>r1..rN\<close> with distinct kids that are added to an empty
  rotator in this order are held in this order.
\<close>

theorem round_robin_selection:
  "nextN (length (keys s)) s = (map Some (keys s), s) \<and>
   nextN (length (keys s) + length (keys s)) s = (map Some (keys s @ keys s), s) \<and>
   (distinct (map (\<lambda>r. (h ! r) ''kid'') rs) \<and> (\<forall>r\<in>set rs. (h ! r) ''kid'' \<noteq> None) \<longrightarrow>
      fold KeyRotator_add rs \<lparr>objects = h, keys = []\<rparr> = \<lparr>objects = h, keys = rs\<rparr>)"
proof (intro conjI impI)
  show one: "nextN (length (keys s)) s = (map Some (keys s), s)" by (rule nextN_cycle)
  show "nextN (length (keys s) + length (keys s)) s = (map Some (keys s @ keys s), s)"
    by (simp add: nextN_add one)
next
  assume "distinct (map (\<lambda>r. (h ! r) ''kid'') rs) \<and> (\<forall>r\<in>set rs. (h ! r) ''kid'' \<noteq> None)"
  then show "fold KeyRotator_add rs \<lparr>objects = h, keys = []\<rparr> = \<lparr>objects = h, keys = rs\<rparr>"
    using fold_add_distinct [of h "[]" rs] by simp
qed

theorem round_robin_selection_witness:
  "fold KeyRotator_add [0, 1, 2]
     \<lparr>objects = [[''kid'' \<mapsto> ''a''], [''kid'' \<mapsto> ''b''], [''kid'' \<mapsto> ''c'']], keys = []\<rparr>
   = \<lparr>objects = [[''kid'' \<mapsto> ''a''], [''kid'' \<mapsto> ''b''], [''kid'' \<mapsto> ''c'']], keys = [0, 1, 2]\<rparr> \<and>
   nextN 3 \<lparr>objects = [[''kid'' \<mapsto> ''a''], [''kid'' \<mapsto> ''b''], [''kid'' \<mapsto> ''c'']], keys = [0, 1, 2]\<rparr>
   = ([Some 0, Some 1, Some 2],
      \<lparr>objects = [[''kid'' \<mapsto> ''a''], [''kid'' \<mapsto> ''b''], [''kid'' \<mapsto> ''c'']], keys = [0, 1, 2]\<rparr>)"
proof -
  let ?h = "[[''kid'' \<mapsto> ''a''], [''kid'' \<mapsto> ''b''], [''kid'' \<mapsto> ''c'']] :: heap"
  let ?s = "\<lparr>objects = ?h, keys = [0, 1, 2]\<rparr>"
  note t = round_robin_selection [of ?s ?h "[0, 1, 2]"]
  have d: "distinct (map (\<lambda>r. (?h ! r) ''kid'') [0, 1, 2]) \<and>
           (\<forall>r\<in>set [0, 1, 2]. (?h ! r) ''kid'' \<noteq> None)" by simp
  with t have a: "fold KeyRotator_add [0, 1, 2] \<lparr>objects = ?h, keys = []\<rparr> = ?s" by blast
  have l: "length (keys ?s) = 3" by simp
  have m: "map Some (keys ?s) = [Some 0, Some 1, Some 2]" by simp
  from t have "nextN (length (keys ?s)) ?s = (map Some (keys ?s), ?s)" by blast
  then have b: "nextN 3 ?s = ([Some 0, Some 1, Some 2], ?s)" unfolding l m .
  from a b show ?thesis by blast
qed

subsection \<open>Adding and selecting by kid\<close>

lemma filter_distinct_map:
  assumes "distinct (map f xs)" and "i < length xs" and "f (xs ! i) = v"
  shows "filter (\<lambda>x. f x \<noteq> v) xs = take i xs @ drop (Suc i) xs"
proof -
  have xs: "xs = take i xs @ xs ! i # drop (Suc i) xs"
    using assms(2) by (rule id_take_nth_drop)
  have "distinct (map f (take i xs @ xs ! i # drop (Suc i) xs))"
    using assms(1) xs by simp
  then have a: "\<forall>x\<in>set (take i xs). f x \<noteq> v" and b: "\<forall>x\<in>set (drop (Suc i) xs). f x \<noteq> v"
    using assms(3) by (auto simp: image_iff)
  have "filter (\<lambda>x. f x \<noteq> v) (take i xs @ xs ! i # drop (Suc i) xs)
        = take i xs @ drop (Suc i) xs"
    using a b assms(3) by simp
  with xs show ?thesis by simp
qed

lemma findNext_pinned_found:
  assumes "\<exists>x\<in>set (keys s). (objects s ! x) ''kid'' = Some k"
  shows "0 \<le> findNext (Some k) s \<and> nat (findNext (Some k) s) < length (keys s) \<and>
         (objects s ! (keys s ! nat (findNext (Some k) s))) ''kid'' = Some k"
proof -
  let ?p = "\<lambda>x. (objects s ! x) ''kid'' = Some k"
  from assms have ne: "keys s \<noteq> []" by auto
  then have eq: "findNext (Some k) s = findIndex ?p (keys s)" by (simp add: findNext_def)
  from assms have n1: "findIndex ?p (keys s) \<noteq> -1" by (simp add: findIndex_none)
  with findIndex_range [of ?p "keys s"] findIndex_first [OF n1] show ?thesis
    unfolding eq by auto
qed

lemma findNext_pinned_absent:
  assumes "\<forall>x\<in>set (keys s). (objects s ! x) ''kid'' \<noteq> Some k"
  shows "findNext (Some k) s = -1"
  using assms by (simp add: findNext_def findIndex_none)

text \<open>
  C2. In a rotator with unique kids, adding a record whose kid \<open>k\<close> is the kid of a
  stored record removes that record and appends the new one: the other records keep
  their order, the new record is the last one and the only one with kid \<open>k\<close>, no object
  is changed, and the kids stay unique.
\<close>

theorem replace_on_duplicate:
  assumes "uniqueKids s"
    and "(objects s ! key) ''kid'' = Some k"
    and "\<exists>x\<in>set (keys s). (objects s ! x) ''kid'' = Some k"
  shows "let s' = KeyRotator_add key s
         in objects s' = objects s \<and>
            keys s' = filter (\<lambda>x. (objects s ! x) ''kid'' \<noteq> Some k) (keys s) @ [key] \<and>
            last (keys s') = key \<and>
            length (filter (\<lambda>x. (objects s' ! x) ''kid'' = Some k) (keys s')) = 1 \<and>
            uniqueKids s'"
proof -
  let ?f = "\<lambda>x. (objects s ! x) ''kid''"
  let ?i = "findNext (Some k) s"
  from findNext_pinned_found [OF assms(3)]
  have i0: "0 \<le> ?i" and il: "nat ?i < length (keys s)" and ik: "?f (keys s ! nat ?i) = Some k"
    by auto
  have rest: "snd (splice ?i 1 (keys s)) = filter (\<lambda>x. ?f x \<noteq> Some k) (keys s)"
    using splice_in_range [OF i0 il] filter_distinct_map [of ?f "keys s" "nat ?i" "Some k"]
      assms(1) il ik by (simp add: uniqueKids_def)
  have ks: "keys (KeyRotator_add key s) = filter (\<lambda>x. ?f x \<noteq> Some k) (keys s) @ [key]"
    using i0 rest assms(2) by (simp add: KeyRotator_add_def)
  have ob: "objects (KeyRotator_add key s) = objects s"
    by (simp add: KeyRotator_add_def Let_def)
  have one: "length (filter (\<lambda>x. ?f x = Some k) (filter (\<lambda>x. ?f x \<noteq> Some k) (keys s) @ [key])) = 1"
    using assms(2) by (simp add: filter_empty_conv)
  have "distinct (map ?f (filter (\<lambda>x. ?f x \<noteq> Some k) (keys s)))"
    using assms(1) by (simp add: uniqueKids_def distinct_map_filter)
  then have uq: "distinct (map ?f (filter (\<lambda>x. ?f x \<noteq> Some k) (keys s) @ [key]))"
    using assms(2) by (auto simp: image_iff)
  show ?thesis
    unfolding Let_def using ks ob one uq by (simp add: uniqueKids_def)
qed

theorem replace_on_duplicate_witness:
  "(let s = \<lparr>objects = [[''kid'' \<mapsto> ''a'', ''n'' \<mapsto> ''old''], [''kid'' \<mapsto> ''b''],
                         [''kid'' \<mapsto> ''a'', ''n'' \<mapsto> ''new'']],
              keys = [0, 1]\<rparr>;
        s' = KeyRotator_add 2 s
    in uniqueKids s \<and> objects s' = objects s \<and> keys s' = [1, 2] \<and> uniqueKids s')"
proof -
  let ?s = "\<lparr>objects = [[''kid'' \<mapsto> ''a'', ''n'' \<mapsto> ''old''], [''kid'' \<mapsto> ''b''],
                         [''kid'' \<mapsto> ''a'', ''n'' \<mapsto> ''new'']],
              keys = [0, 1]\<rparr>"
  have u: "uniqueKids ?s" by (simp add: uniqueKids_def)
  have k: "(objects ?s ! 2) ''kid'' = Some ''a''" by simp
  have e: "\<exists>x\<in>set (keys ?s). (objects ?s ! x) ''kid'' = Some ''a''" by simp
  from replace_on_duplicate [OF u k e] u show ?thesis by (simp add: Let_def)
qed

lemma next_objects: "objects (snd (KeyRotator_next kid s)) = objects s"
  by (auto simp: KeyRotator_next_def moveToTheEnd_def Let_def split: prod.splits list.splits)

lemma next_found:
  assumes "findNext kid s \<noteq> -1"
  shows "KeyRotator_next kid s
         = (Some (keys s ! nat (findNext kid s)),
            s\<lparr>keys := take (nat (findNext kid s)) (keys s)
                       @ drop (Suc (nat (findNext kid s))) (keys s)
                       @ [keys s ! nat (findNext kid s)]\<rparr>)"
proof -
  from assms findNext_range [of kid s]
  have "0 \<le> findNext kid s" and "nat (findNext kid s) < length (keys s)" by auto
  from splice_in_range [OF this] assms show ?thesis
    by (simp add: KeyRotator_next_def moveToTheEnd_def Let_def)
qed

lemma moved_set:
  "i < length xs \<Longrightarrow> set (take i xs @ drop (Suc i) xs @ [xs ! i]) = set xs"
proof -
  assume "i < length xs"
  then have "xs = take i xs @ xs ! i # drop (Suc i) xs" by (rule id_take_nth_drop)
  then have "set xs = set (take i xs @ xs ! i # drop (Suc i) xs)" by simp
  then show ?thesis by auto
qed

lemma moved_distinct_map:
  assumes "i < length xs" and "distinct (map f xs)"
  shows "distinct (map f (take i xs @ drop (Suc i) xs @ [xs ! i]))"
proof -
  have "xs = take i xs @ xs ! i # drop (Suc i) xs" using assms(1) by (rule id_take_nth_drop)
  then have "distinct (map f (take i xs @ xs ! i # drop (Suc i) xs))" using assms(2) by simp
  then show ?thesis by auto
qed

lemma next_keys_set: "set (keys (snd (KeyRotator_next kid s))) = set (keys s)"
proof (cases "findNext kid s = -1")
  case True
  then show ?thesis by (simp add: KeyRotator_next_def)
next
  case False
  with findNext_range [of kid s] have "nat (findNext kid s) < length (keys s)" by auto
  then show ?thesis using moved_set [of "nat (findNext kid s)" "keys s"]
    by (simp add: next_found [OF False])
qed

lemma next_uniqueKids: "uniqueKids s \<Longrightarrow> uniqueKids (snd (KeyRotator_next kid s))"
proof (cases "findNext kid s = -1")
  case True
  assume "uniqueKids s"
  with True show ?thesis by (simp add: KeyRotator_next_def)
next
  case False
  assume u: "uniqueKids s"
  from False findNext_range [of kid s] have "nat (findNext kid s) < length (keys s)" by auto
  from moved_distinct_map [OF this] u show ?thesis
    by (simp add: next_found [OF False] uniqueKids_def)
qed

lemma selections_invariant:
  "objects (selections kids s) = objects s \<and>
   set (keys (selections kids s)) = set (keys s) \<and>
   (uniqueKids s \<longrightarrow> uniqueKids (selections kids s))"
  by (induction kids arbitrary: s) (simp_all add: next_objects next_keys_set next_uniqueKids)

lemma next_pinned_unique:
  assumes "uniqueKids s"
  shows "fst (KeyRotator_next (Some k) s) = Some x
         \<longleftrightarrow> x \<in> set (keys s) \<and> (objects s ! x) ''kid'' = Some k"
proof (cases "\<exists>y\<in>set (keys s). (objects s ! y) ''kid'' = Some k")
  case False
  then have "findNext (Some k) s = -1" by (simp add: findNext_pinned_absent)
  with False show ?thesis by (auto simp: KeyRotator_next_def)
next
  case True
  let ?i = "nat (findNext (Some k) s)"
  from findNext_pinned_found [OF True]
  have ne: "findNext (Some k) s \<noteq> -1" and il: "?i < length (keys s)"
    and ik: "(objects s ! (keys s ! ?i)) ''kid'' = Some k" by auto
  have r: "fst (KeyRotator_next (Some k) s) = Some (keys s ! ?i)"
    by (simp add: next_found [OF ne])
  have inj: "inj_on (\<lambda>x. (objects s ! x) ''kid'') (set (keys s))"
    using assms by (simp add: uniqueKids_def distinct_map)
  show ?thesis
  proof
    assume "fst (KeyRotator_next (Some k) s) = Some x"
    with r have "x = keys s ! ?i" by simp
    with il ik show "x \<in> set (keys s) \<and> (objects s ! x) ''kid'' = Some k" by simp
  next
    assume a: "x \<in> set (keys s) \<and> (objects s ! x) ''kid'' = Some k"
    have "keys s ! ?i \<in> set (keys s)" using il by simp
    moreover have "(objects s ! x) ''kid'' = (objects s ! (keys s ! ?i)) ''kid''"
      using a ik by simp
    ultimately have "x = keys s ! ?i" using a inj_onD [OF inj] by blast
    with r show "fst (KeyRotator_next (Some k) s) = Some x" by simp
  qed
qed

text \<open>
  C8. In a rotator with unique kids, after any sequence of calls of \<open>next\<close> (with or
  without a kid), \<open>next(k)\<close> returns a record exactly when it is the stored record
  with kid \<open>k\<close>, returns nothing exactly when no stored record has kid \<open>k\<close>, and so
  returns what it would have returned before those calls.
\<close>

theorem pinned_lookup:
  assumes "uniqueKids s"
  shows "(fst (KeyRotator_next (Some k) (selections kids s)) = Some x
            \<longleftrightarrow> x \<in> set (keys s) \<and> (objects s ! x) ''kid'' = Some k) \<and>
         (fst (KeyRotator_next (Some k) (selections kids s)) = None
            \<longleftrightarrow> (\<forall>y\<in>set (keys s). (objects s ! y) ''kid'' \<noteq> Some k)) \<and>
         fst (KeyRotator_next (Some k) (selections kids s))
           = fst (KeyRotator_next (Some k) s)"
proof -
  let ?t = "selections kids s"
  from selections_invariant [of kids s] assms
  have ob: "objects ?t = objects s" and ks: "set (keys ?t) = set (keys s)" and u: "uniqueKids ?t"
    by auto
  have a: "\<And>y. fst (KeyRotator_next (Some k) ?t) = Some y
            \<longleftrightarrow> y \<in> set (keys s) \<and> (objects s ! y) ''kid'' = Some k"
    using next_pinned_unique [OF u] ob ks by simp
  have b: "\<And>y. fst (KeyRotator_next (Some k) s) = Some y
            \<longleftrightarrow> y \<in> set (keys s) \<and> (objects s ! y) ''kid'' = Some k"
    using next_pinned_unique [OF assms] by simp
  have c: "fst (KeyRotator_next (Some k) ?t) = fst (KeyRotator_next (Some k) s)"
  proof (cases "fst (KeyRotator_next (Some k) s)")
    case None
    with b have "\<forall>y. \<not> (y \<in> set (keys s) \<and> (objects s ! y) ''kid'' = Some k)" by simp
    with a have "\<forall>y. fst (KeyRotator_next (Some k) ?t) \<noteq> Some y" by simp
    with None show ?thesis by (cases "fst (KeyRotator_next (Some k) ?t)") auto
  next
    case (Some y)
    with b have "y \<in> set (keys s) \<and> (objects s ! y) ''kid'' = Some k" by blast
    with a have "fst (KeyRotator_next (Some k) ?t) = Some y" by blast
    with Some show ?thesis by simp
  qed
  have d: "fst (KeyRotator_next (Some k) ?t) = None
            \<longleftrightarrow> (\<forall>y\<in>set (keys s). (objects s ! y) ''kid'' \<noteq> Some k)"
  proof
    assume n: "fst (KeyRotator_next (Some k) ?t) = None"
    show "\<forall>y\<in>set (keys s). (objects s ! y) ''kid'' \<noteq> Some k"
    proof
      fix y assume "y \<in> set (keys s)"
      show "(objects s ! y) ''kid'' \<noteq> Some k"
      proof
        assume "(objects s ! y) ''kid'' = Some k"
        with \<open>y \<in> set (keys s)\<close> a have "fst (KeyRotator_next (Some k) ?t) = Some y" by simp
        with n show False by simp
      qed
    qed
  next
    assume "\<forall>y\<in>set (keys s). (objects s ! y) ''kid'' \<noteq> Some k"
    with a have "\<forall>y. fst (KeyRotator_next (Some k) ?t) \<noteq> Some y" by auto
    then show "fst (KeyRotator_next (Some k) ?t) = None"
      by (cases "fst (KeyRotator_next (Some k) ?t)") auto
  qed
  from a c d show ?thesis by simp
qed

theorem pinned_lookup_witness:
  "(let s = \<lparr>objects = [[''kid'' \<mapsto> ''a''], [''kid'' \<mapsto> ''b''], [''kid'' \<mapsto> ''c'']],
              keys = [0, 1, 2]\<rparr>
    in uniqueKids s \<and>
       fst (KeyRotator_next (Some ''b'') (selections [None, Some ''c'', None, Some ''b''] s)) = Some 1 \<and>
       fst (KeyRotator_next (Some ''z'') (selections [None, Some ''c'', None, Some ''b''] s)) = None)"
proof -
  let ?s = "\<lparr>objects = [[''kid'' \<mapsto> ''a''], [''kid'' \<mapsto> ''b''], [''kid'' \<mapsto> ''c'']],
              keys = [0, 1, 2]\<rparr>"
  have u: "uniqueKids ?s" by (simp add: uniqueKids_def)
  from pinned_lookup [OF u, of "''b''" "[None, Some ''c'', None, Some ''b'']" 1]
    pinned_lookup [OF u, of "''z''" "[None, Some ''c'', None, Some ''b'']" 0] u
  show ?thesis by (simp add: Let_def)
qed

subsection \<open>The export\<close>

lemma prefix_nth: "prefix h h' \<Longrightarrow> a < length h \<Longrightarrow> h' ! a = h ! a"
  by (auto simp: prefix_def nth_append)

lemma removeKey_eq:
  "obj < length h \<Longrightarrow> removeKey k obj h = (length h, h @ [(h ! obj)(k := None)])"
  by (simp add: removeKey_def alloc_def)

lemma removeKeys_spec:
  assumes "obj < length h" and "removeKeys ks obj h = (r, h')"
  shows "prefix h h' \<and> r < length h' \<and>
         h' ! r = (\<lambda>f. if f \<in> set ks then None else (h ! obj) f) \<and>
         (ks \<noteq> [] \<longrightarrow> length h \<le> r)"
  using assms
proof (induction ks arbitrary: obj h)
  case Nil
  then show ?case by auto
next
  case (Cons k ks)
  let ?h1 = "h @ [(h ! obj)(k := None)]"
  from Cons.prems have rec: "removeKeys ks (length h) ?h1 = (r, h')"
    by (simp add: removeKey_eq)
  have "length h < length ?h1" by simp
  from Cons.IH [OF this rec]
  have p: "prefix ?h1 h'" and rl: "r < length h'"
    and c: "h' ! r = (\<lambda>f. if f \<in> set ks then None else (?h1 ! length h) f)"
    and ge: "ks \<noteq> [] \<longrightarrow> length ?h1 \<le> r" by auto
  have p': "prefix h h'" using p by (auto simp: prefix_def)
  have c': "h' ! r = (\<lambda>f. if f \<in> set (k # ks) then None else (h ! obj) f)"
    unfolding c by (auto simp: fun_eq_iff)
  have ge': "length h \<le> r"
  proof (cases ks)
    case Nil
    with rec show ?thesis by simp
  next
    case (Cons a list)
    with ge show ?thesis by simp
  qed
  from p' rl c' ge' show ?case by simp
qed

lemma cleaner_removes:
  assumes "map_of privateToPublicTransformerMap alg = Some cleaner"
  shows "\<exists>ks. ks \<noteq> [] \<and> set ks = specPrivateFields alg \<and> cleaner = removeKeys ks"
proof -
  have rsa: "RsaPrivateFieldsRemover = removeKeys [''d'', ''p'', ''q'', ''dp'', ''dq'', ''qi'']"
    by (rule ext) (simp add: RsaPrivateFieldsRemover_def)
  have ec: "EcdsaPrivateFieldsRemover = removeKeys [''d'']"
    by (rule ext) (simp add: EcdsaPrivateFieldsRemover_def)
  have ed: "EddsaPrivateFieldsRemover = removeKeys [''d'']"
    by (rule ext) (simp add: EddsaPrivateFieldsRemover_def)
  from assms consider
      "alg \<in> {''RS256'', ''RS384'', ''RS512'', ''PS256'', ''PS384'', ''PS512''}"
      "cleaner = RsaPrivateFieldsRemover"
    | "alg \<in> {''ES256'', ''ES256K'', ''ES384'', ''ES512''}" "cleaner = EcdsaPrivateFieldsRemover"
    | "alg = ''EdDSA''" "cleaner = EddsaPrivateFieldsRemover"
    by (auto simp: privateToPublicTransformerMap_def split: if_splits)
  then show ?thesis
  proof cases
    case 1
    then show ?thesis unfolding rsa
      by (intro exI [of _ "[''d'', ''p'', ''q'', ''dp'', ''dq'', ''qi'']"])
         (auto simp: specPrivateFields_def)
  next
    case 2
    then show ?thesis unfolding ec
      by (intro exI [of _ "[''d'']"]) (auto simp: specPrivateFields_def)
  next
    case 3
    then show ?thesis unfolding ed
      by (intro exI [of _ "[''d'']"]) (auto simp: specPrivateFields_def)
  qed
qed

lemma supported_map_of:
  "alg \<in> set supportedAlgs \<longleftrightarrow> map_of privateToPublicTransformerMap alg \<noteq> None"
  by (simp add: supportedAlgs_def map_of_eq_None_iff)

lemma body_private: "toJSON_body True key h = Inr (Ref (length h), h @ [h ! key])"
  by (simp add: toJSON_body_def alloc_def)

lemma body_supported:
  assumes "key < length h" and "(h ! key) ''alg'' = Some a" and "a \<in> set supportedAlgs"
  shows "\<exists>r h'. toJSON_body False key h = Inr (Ref r, h') \<and> prefix h h' \<and>
           length h \<le> r \<and> r < length h' \<and>
           h' ! r = (\<lambda>f. if f \<in> specPrivateFields a then None else (h ! key) f)"
proof -
  from assms(3) obtain cleaner where c: "map_of privateToPublicTransformerMap a = Some cleaner"
    by (auto simp: supported_map_of)
  from cleaner_removes [OF c] obtain ks
    where ks: "ks \<noteq> []" "set ks = specPrivateFields a" "cleaner = removeKeys ks" by auto
  obtain r h' where rk: "removeKeys ks key h = (r, h')" by (cases "removeKeys ks key h")
  from removeKeys_spec [OF assms(1) rk] ks
  have "prefix h h' \<and> length h \<le> r \<and> r < length h' \<and>
        h' ! r = (\<lambda>f. if f \<in> specPrivateFields a then None else (h ! key) f)" by simp
  moreover have "toJSON_body False key h = Inr (Ref r, h')"
    using assms(2,3) c ks(3) rk
    by (simp add: toJSON_body_def assertIsString_def inTransformerMap_def callCleaner_def)
  ultimately show ?thesis by blast
qed

lemma body_inherited:
  assumes "(h ! key) ''alg'' = Some a" and "a \<notin> set supportedAlgs"
  shows "toJSON_body False key h =
           (if a = ''constructor'' then Inr (Ref key, h)
            else if a = ''toString'' then Inr (Str ''[object Undefined]'', h)
            else if a \<in> set objectPrototypeProperties then Inl TypeError
            else Inl (UnsupportedAlg a))"
proof -
  from assms(2) have n: "map_of privateToPublicTransformerMap a = None"
    by (simp add: supported_map_of)
  have "''constructor'' \<in> set objectPrototypeProperties"
    and "''toString'' \<in> set objectPrototypeProperties"
    by (simp_all add: objectPrototypeProperties_def)
  with assms n show ?thesis
    by (auto simp: toJSON_body_def assertIsString_def inTransformerMap_def callCleaner_def)
qed

lemma body_missing:
  "(h ! key) ''alg'' = None \<Longrightarrow> toJSON_body False key h = Inl MissingAlgField"
  by (simp add: toJSON_body_def assertIsString_def)

lemma body_frame:
  assumes "key < length h" and "toJSON_body inc key h = Inr (v, h')"
  shows "prefix h h' \<and> (\<forall>a. v = Ref a \<longrightarrow> a < length h')"
proof (cases inc)
  case True
  with assms show ?thesis by (auto simp: body_private)
next
  case False
  show ?thesis
  proof (cases "(h ! key) ''alg''")
    case None
    with False assms show ?thesis by (simp add: body_missing)
  next
    case (Some a)
    show ?thesis
    proof (cases "a \<in> set supportedAlgs")
      case True
      from body_supported [OF assms(1) Some True] False assms(2) show ?thesis by auto
    next
      case no: False
      from body_inherited [OF Some no] False assms show ?thesis
        by (auto split: if_splits)
    qed
  qed
qed

lemma body_rel:
  assumes "key < length h" and "key < length g" and "h ! key = g ! key"
  shows "case toJSON_body inc key h of
           Inl e \<Rightarrow> toJSON_body inc key g = Inl e
         | Inr (v, h') \<Rightarrow>
             (\<exists>w g'. toJSON_body inc key g = Inr (w, g') \<and> contents h' v = contents g' w)"
proof (cases inc)
  case True
  with assms show ?thesis by (simp add: body_private contents_def)
next
  case False
  show ?thesis
  proof (cases "(h ! key) ''alg''")
    case None
    with False assms show ?thesis by (simp add: body_missing)
  next
    case (Some a)
    then have Some': "(g ! key) ''alg'' = Some a" using assms(3) by simp
    show ?thesis
    proof (cases "a \<in> set supportedAlgs")
      case True
      from body_supported [OF assms(1) Some True] obtain r h'
        where h: "toJSON_body False key h = Inr (Ref r, h')"
          "h' ! r = (\<lambda>f. if f \<in> specPrivateFields a then None else (h ! key) f)" by blast
      from body_supported [OF assms(2) Some' True] obtain q g'
        where g: "toJSON_body False key g = Inr (Ref q, g')"
          "g' ! q = (\<lambda>f. if f \<in> specPrivateFields a then None else (g ! key) f)" by blast
      have "h' ! r = g' ! q" unfolding h(2) g(2) assms(3) ..
      with h(1) g(1) False show ?thesis by (simp add: contents_def)
    next
      case no: False
      from body_inherited [OF Some no] body_inherited [OF Some' no] False assms show ?thesis
        by (auto simp: contents_def)
    qed
  qed
qed

lemma loop_acc:
  "toJSON_loop inc ks acc h =
     (case toJSON_loop inc ks [] h of
        (Inl e, h') \<Rightarrow> (Inl e, h')
      | (Inr out, h') \<Rightarrow> (Inr (acc @ out), h'))"
proof (induction ks arbitrary: acc h)
  case Nil
  show ?case by simp
next
  case (Cons key rest)
  show ?case
  proof (cases "toJSON_body inc key h")
    case (Inl e)
    then show ?thesis by simp
  next
    case (Inr p)
    obtain v h1 where p: "p = (v, h1)" by (cases p)
    have a: "toJSON_loop inc (key # rest) acc h = toJSON_loop inc rest (acc @ [v]) h1"
      and b: "toJSON_loop inc (key # rest) [] h = toJSON_loop inc rest [v] h1"
      using Inr p by simp_all
    show ?thesis
      unfolding a b Cons.IH [of "acc @ [v]" h1] Cons.IH [of "[v]" h1]
      by (auto split: prod.splits sum.splits)
  qed
qed

lemma loop_Cons:
  "toJSON_loop inc (key # rest) [] h =
     (case toJSON_body inc key h of
        Inl e \<Rightarrow> (Inl e, h)
      | Inr (v, h1) \<Rightarrow>
          (case toJSON_loop inc rest [] h1 of
             (Inl e, h') \<Rightarrow> (Inl e, h')
           | (Inr out, h') \<Rightarrow> (Inr (v # out), h')))"
proof (cases "toJSON_body inc key h")
  case (Inl e)
  then show ?thesis by simp
next
  case (Inr p)
  obtain v h1 where p: "p = (v, h1)" by (cases p)
  have "toJSON_loop inc (key # rest) [] h = toJSON_loop inc rest [v] h1"
    using Inr p by simp
  also have "\<dots> = (case toJSON_loop inc rest [] h1 of
                      (Inl e, h') \<Rightarrow> (Inl e, h')
                    | (Inr out, h') \<Rightarrow> (Inr (v # out), h'))"
    using loop_acc [of inc rest "[v]" h1] by (auto split: prod.splits sum.splits)
  finally show ?thesis unfolding Inr p by simp
qed

lemma loop_frame:
  assumes "\<forall>key\<in>set ks. key < length h" and "toJSON_loop inc ks [] h = (r, h')"
  shows "prefix h h'"
  using assms
proof (induction ks arbitrary: h r)
  case Nil
  then show ?case by simp
next
  case (Cons key rest)
  show ?case
  proof (cases "toJSON_body inc key h")
    case (Inl e)
    with Cons.prems(2) show ?thesis by (simp add: loop_Cons del: toJSON_loop.simps)
  next
    case (Inr p)
    obtain v h1 where p: "p = (v, h1)" by (cases p)
    from Cons.prems(1) have k: "key < length h" by simp
    from body_frame [OF k] Inr p have p1: "prefix h h1" by simp
    then have "length h \<le> length h1" by (rule prefix_length_le)
    with Cons.prems(1) have v1: "\<forall>key\<in>set rest. key < length h1" by auto
    obtain r1 where r1: "toJSON_loop inc rest [] h1 = (r1, h')"
      using Cons.prems(2) Inr p
      by (cases "toJSON_loop inc rest [] h1")
         (auto simp: loop_Cons simp del: toJSON_loop.simps split: sum.splits)
    from Cons.IH [OF v1 r1] p1 show ?thesis by simp
  qed
qed

lemma contents_prefix:
  "prefix h h' \<Longrightarrow> (\<forall>a. v = Ref a \<longrightarrow> a < length h) \<Longrightarrow> contents h' v = contents h v"
  by (cases v) (simp_all add: contents_def prefix_nth)

lemma loop_length:
  "toJSON_loop inc ks [] h = (Inr out, h') \<Longrightarrow> length out = length ks"
proof (induction ks arbitrary: h out)
  case Nil
  then show ?case by simp
next
  case (Cons key rest)
  from Cons.prems obtain v h1 out1
    where "toJSON_loop inc rest [] h1 = (Inr out1, h')" and "out = v # out1"
    by (auto simp: loop_Cons simp del: toJSON_loop.simps split: sum.splits prod.splits)
  with Cons.IH show ?case by simp
qed

lemma loop_private:
  assumes "\<forall>key\<in>set ks. key < length h"
  shows "toJSON_loop True ks [] h
         = (Inr (map Ref [length h..<length h + length ks]), h @ map ((!) h) ks)"
  using assms
proof (induction ks arbitrary: h)
  case Nil
  show ?case by simp
next
  case (Cons key rest)
  let ?h1 = "h @ [h ! key]"
  from Cons.prems have v1: "\<forall>key\<in>set rest. key < length ?h1" by auto
  have same: "map ((!) ?h1) rest = map ((!) h) rest"
    using Cons.prems by (auto simp: nth_append)
  have upt: "[length h..<length h + length (key # rest)]
             = length h # [length ?h1..<length ?h1 + length rest]"
    by (simp add: upt_conv_Cons del: upt_Suc)
  show ?case
    unfolding loop_Cons body_private upt
    by (simp add: Cons.IH [OF v1] same del: toJSON_loop.simps upt_Suc)
qed

lemma loop_rel:
  assumes "\<forall>key\<in>set ks. key < length h \<and> key < length g \<and> h ! key = g ! key"
  shows "case toJSON_loop inc ks [] h of
           (Inl e, h') \<Rightarrow> fst (toJSON_loop inc ks [] g) = Inl e
         | (Inr out, h') \<Rightarrow>
             (\<exists>out' g'. toJSON_loop inc ks [] g = (Inr out', g') \<and>
                        map (contents h') out = map (contents g') out')"
  using assms
proof (induction ks arbitrary: h g)
  case Nil
  show ?case by simp
next
  case (Cons key rest)
  from Cons.prems have kh: "key < length h" and kg: "key < length g" and eq: "h ! key = g ! key"
    by auto
  note rel = body_rel [OF kh kg eq, of inc]
  show ?case
  proof (cases "toJSON_body inc key h")
    case (Inl e)
    with rel show ?thesis by (simp add: loop_Cons del: toJSON_loop.simps)
  next
    case (Inr p)
    obtain v h1 where p: "p = (v, h1)" by (cases p)
    from rel Inr p obtain w g1
      where bg: "toJSON_body inc key g = Inr (w, g1)" and c: "contents h1 v = contents g1 w"
      by auto
    from body_frame [OF kh] Inr p
    have ph: "prefix h h1" and vh: "\<forall>a. v = Ref a \<longrightarrow> a < length h1" by auto
    from body_frame [OF kg bg]
    have pg: "prefix g g1" and vg: "\<forall>a. w = Ref a \<longrightarrow> a < length g1" by auto
    have lh: "length h \<le> length h1" and lg: "length g \<le> length g1"
      using ph pg by (auto dest: prefix_length_le)
    have valid: "\<forall>key\<in>set rest. key < length h1 \<and> key < length g1 \<and> h1 ! key = g1 ! key"
    proof
      fix k assume "k \<in> set rest"
      with Cons.prems have "k < length h" "k < length g" "h ! k = g ! k" by auto
      with ph pg lh lg show "k < length h1 \<and> k < length g1 \<and> h1 ! k = g1 ! k"
        by (simp add: prefix_nth)
    qed
    note ih = Cons.IH [OF valid]
    obtain r1 h' where l1: "toJSON_loop inc rest [] h1 = (r1, h')"
      by (cases "toJSON_loop inc rest [] h1")
    show ?thesis
    proof (cases r1)
      case (Inl e)
      with ih l1 have "fst (toJSON_loop inc rest [] g1) = Inl e" by simp
      then have "fst (toJSON_loop inc (key # rest) [] g) = Inl e"
        unfolding loop_Cons bg by (auto split: prod.splits sum.splits)
      moreover have "toJSON_loop inc (key # rest) [] h = (Inl e, h')"
        unfolding loop_Cons Inr p using l1 Inl by simp
      ultimately show ?thesis by simp
    next
      case (Inr out)
      with ih l1 obtain out' g'
        where l2: "toJSON_loop inc rest [] g1 = (Inr out', g')"
          and m: "map (contents h') out = map (contents g') out'" by auto
      have v1: "\<forall>key\<in>set rest. key < length h1" and v2: "\<forall>key\<in>set rest. key < length g1"
        using valid by auto
      have "prefix h1 h'" using loop_frame [OF v1 l1] .
      then have cv: "contents h' v = contents h1 v" using vh by (rule contents_prefix)
      have "prefix g1 g'" using loop_frame [OF v2 l2] .
      then have cw: "contents g' w = contents g1 w" using vg by (rule contents_prefix)
      have a: "toJSON_loop inc (key # rest) [] h = (Inr (v # out), h')"
        unfolding loop_Cons \<open>toJSON_body inc key h = Inr p\<close> p using l1 Inr by simp
      have b: "toJSON_loop inc (key # rest) [] g = (Inr (w # out'), g')"
        unfolding loop_Cons bg using l2 by simp
      show ?thesis unfolding a using b m cv cw c by simp
    qed
  qed
qed

lemma loop_index:
  assumes "\<forall>key\<in>set ks. key < length h"
    and "toJSON_loop False ks [] h = (Inr out, h')"
    and "i < length ks"
    and "(h ! (ks ! i)) ''alg'' = Some a"
    and "a \<in> set supportedAlgs"
  shows "\<exists>r. out ! i = Ref r \<and> length h \<le> r \<and> r < length h' \<and>
             h' ! r = (\<lambda>f. if f \<in> specPrivateFields a then None else (h ! (ks ! i)) f)"
  using assms
proof (induction ks arbitrary: h out i)
  case Nil
  then show ?case by simp
next
  case (Cons key rest)
  from Cons.prems(1) have kh: "key < length h" by simp
  from Cons.prems(2) obtain v h1 out1
    where b: "toJSON_body False key h = Inr (v, h1)"
      and l: "toJSON_loop False rest [] h1 = (Inr out1, h')"
      and o: "out = v # out1"
    by (auto simp: loop_Cons simp del: toJSON_loop.simps split: sum.splits prod.splits)
  from body_frame [OF kh b] have ph: "prefix h h1" by simp
  then have lh: "length h \<le> length h1" by (rule prefix_length_le)
  with Cons.prems(1) have v1: "\<forall>key\<in>set rest. key < length h1" by auto
  have p1: "prefix h1 h'" using loop_frame [OF v1 l] .
  show ?case
  proof (cases i)
    case 0
    with Cons.prems(4) have "(h ! key) ''alg'' = Some a" by simp
    from body_supported [OF kh this Cons.prems(5)] b obtain r
      where "v = Ref r" "length h \<le> r" "r < length h1"
        "h1 ! r = (\<lambda>f. if f \<in> specPrivateFields a then None else (h ! key) f)" by auto
    with p1 0 o show ?thesis
      using prefix_nth [OF p1, of r] prefix_length_le [OF p1] by auto
  next
    case (Suc j)
    with Cons.prems(3) have j: "j < length rest" by simp
    then have "rest ! j \<in> set rest" by simp
    with Cons.prems(1) have "rest ! j < length h" by simp
    with ph have same: "h1 ! (rest ! j) = h ! (rest ! j)" by (simp add: prefix_nth)
    with Cons.prems(4) Suc have "(h1 ! (rest ! j)) ''alg'' = Some a" by simp
    from Cons.IH [OF v1 l j this Cons.prems(5)] obtain r
      where "out1 ! j = Ref r" "length h1 \<le> r" "r < length h'"
        "h' ! r = (\<lambda>f. if f \<in> specPrivateFields a then None else (h1 ! (rest ! j)) f)" by auto
    with same lh Suc o show ?thesis by auto
  qed
qed

lemma loop_all_supported:
  assumes "\<forall>key\<in>set ks. key < length h \<and> (\<exists>a\<in>set supportedAlgs. (h ! key) ''alg'' = Some a)"
  shows "\<exists>out h'. toJSON_loop False ks [] h = (Inr out, h')"
  using assms
proof (induction ks arbitrary: h)
  case Nil
  show ?case by simp
next
  case (Cons key rest)
  from Cons.prems obtain a where kh: "key < length h" and a: "(h ! key) ''alg'' = Some a"
    "a \<in> set supportedAlgs" by auto
  from body_supported [OF kh a] obtain r h1
    where b: "toJSON_body False key h = Inr (Ref r, h1)" and ph: "prefix h h1" by auto
  have "\<forall>key\<in>set rest. key < length h1 \<and> (\<exists>a\<in>set supportedAlgs. (h1 ! key) ''alg'' = Some a)"
  proof
    fix k assume "k \<in> set rest"
    with Cons.prems have "k < length h" "\<exists>a\<in>set supportedAlgs. (h ! k) ''alg'' = Some a" by auto
    with ph prefix_length_le [OF ph]
    show "k < length h1 \<and> (\<exists>a\<in>set supportedAlgs. (h1 ! k) ''alg'' = Some a)"
      by (simp add: prefix_nth)
  qed
  from Cons.IH [OF this] obtain out h' where "toJSON_loop False rest [] h1 = (Inr out, h')"
    by auto
  then show ?case unfolding loop_Cons b by simp
qed

lemma supportedAlgs_names:
  "set supportedAlgs = {''RS256'', ''RS384'', ''RS512'', ''PS256'', ''PS384'', ''PS512'',
                        ''ES256'', ''ES256K'', ''ES384'', ''ES512'', ''EdDSA''}"
  by (simp add: supportedAlgs_def privateToPublicTransformerMap_def)

lemma specPrivateFields_names:
  assumes "a \<in> {''RS256'', ''RS384'', ''RS512'', ''PS256'', ''PS384'', ''PS512'',
                 ''ES256'', ''ES256K'', ''ES384'', ''ES512'', ''EdDSA''}"
  shows "specPrivateFields a =
           (if a \<in> {''RS256'', ''RS384'', ''RS512'', ''PS256'', ''PS384'', ''PS512''}
            then {''d'', ''p'', ''q'', ''dp'', ''dq'', ''qi''} else {''d''})"
  using assms by (auto simp: specPrivateFields_def)

text \<open>
  C3. The supported algorithms are RS256, RS384, RS512, PS256, PS384, PS512, ES256,
  ES256K, ES384, ES512 and EdDSA. In a store whose references are all allocated, the
  export without private fields succeeds when every record has one of these algorithms.
  Whenever it succeeds, it has one entry for each record, and the entry of a record with one
  of these algorithms is a newly allocated object with exactly the members of the record
  that are not in the spec's private field set of the algorithm's family, each with its
  value: all but \<open>d, p, q, dp, dq, qi\<close> for the six RSA algorithms, all but \<open>d\<close>
  for the four ECDSA algorithms and for EdDSA.
\<close>

theorem redaction_completeness:
  assumes "wellFormed s"
  shows "set supportedAlgs = {''RS256'', ''RS384'', ''RS512'', ''PS256'', ''PS384'', ''PS512'',
                              ''ES256'', ''ES256K'', ''ES384'', ''ES512'', ''EdDSA''} \<and>
         ((\<forall>key\<in>set (keys s).
             \<exists>a\<in>{''RS256'', ''RS384'', ''RS512'', ''PS256'', ''PS384'', ''PS512'',
                  ''ES256'', ''ES256K'', ''ES384'', ''ES512'', ''EdDSA''}.
               (objects s ! key) ''alg'' = Some a)
            \<longrightarrow> (\<exists>out s'. JWKStore_toJSON False s = (Inr out, s'))) \<and>
         (JWKStore_toJSON False s = (Inr out, s') \<and> i < length (keys s) \<and>
          (objects s ! (keys s ! i)) ''alg'' = Some a \<and>
          a \<in> {''RS256'', ''RS384'', ''RS512'', ''PS256'', ''PS384'', ''PS512'',
                ''ES256'', ''ES256K'', ''ES384'', ''ES512'', ''EdDSA''}
            \<longrightarrow> length out = length (keys s) \<and>
                (\<exists>r. out ! i = Ref r \<and> length (objects s) \<le> r \<and> r < length (objects s') \<and>
                     objects s' ! r = (\<lambda>f. if f \<in> specPrivateFields a then None
                                            else (objects s ! (keys s ! i)) f) \<and>
                     objects s' ! r
                       = (\<lambda>f. if f \<in> (if a \<in> {''RS256'', ''RS384'', ''RS512'',
                                                 ''PS256'', ''PS384'', ''PS512''}
                                        then {''d'', ''p'', ''q'', ''dp'', ''dq'', ''qi''}
                                        else {''d''})
                              then None else (objects s ! (keys s ! i)) f)))"
proof (intro conjI impI)
  show "set supportedAlgs = {''RS256'', ''RS384'', ''RS512'', ''PS256'', ''PS384'', ''PS512'',
                              ''ES256'', ''ES256K'', ''ES384'', ''ES512'', ''EdDSA''}"
    by (rule supportedAlgs_names)
next
  assume "\<forall>key\<in>set (keys s).
             \<exists>a\<in>{''RS256'', ''RS384'', ''RS512'', ''PS256'', ''PS384'', ''PS512'',
                  ''ES256'', ''ES256K'', ''ES384'', ''ES512'', ''EdDSA''}.
               (objects s ! key) ''alg'' = Some a"
  then have "\<forall>key\<in>set (keys s). \<exists>a\<in>set supportedAlgs. (objects s ! key) ''alg'' = Some a"
    unfolding supportedAlgs_names .
  with assms
  have "\<forall>key\<in>set (keys s). key < length (objects s) \<and>
          (\<exists>a\<in>set supportedAlgs. (objects s ! key) ''alg'' = Some a)"
    by (simp add: wellFormed_def)
  from loop_all_supported [OF this]
  show "\<exists>out s'. JWKStore_toJSON False s = (Inr out, s')"
    by (auto simp: JWKStore_toJSON_def KeyRotator_toJSON_def)
next
  assume h: "JWKStore_toJSON False s = (Inr out, s') \<and> i < length (keys s) \<and>
    (objects s ! (keys s ! i)) ''alg'' = Some a \<and>
    a \<in> {''RS256'', ''RS384'', ''RS512'', ''PS256'', ''PS384'', ''PS512'',
          ''ES256'', ''ES256K'', ''ES384'', ''ES512'', ''EdDSA''}"
  from h [THEN conjunct1]
  have l: "toJSON_loop False (keys s) [] (objects s) = (Inr out, objects s')"
    by (auto simp: JWKStore_toJSON_def KeyRotator_toJSON_def split: prod.splits)
  from loop_length [OF l] show "length out = length (keys s)" .
next
  assume h: "JWKStore_toJSON False s = (Inr out, s') \<and> i < length (keys s) \<and>
    (objects s ! (keys s ! i)) ''alg'' = Some a \<and>
    a \<in> {''RS256'', ''RS384'', ''RS512'', ''PS256'', ''PS384'', ''PS512'',
          ''ES256'', ''ES256K'', ''ES384'', ''ES512'', ''EdDSA''}"
  from h [THEN conjunct1]
  have l: "toJSON_loop False (keys s) [] (objects s) = (Inr out, objects s')"
    by (auto simp: JWKStore_toJSON_def KeyRotator_toJSON_def split: prod.splits)
  from assms have v: "\<forall>key\<in>set (keys s). key < length (objects s)"
    by (simp add: wellFormed_def)
  note i = h [THEN conjunct2, THEN conjunct1]
    and al = h [THEN conjunct2, THEN conjunct2, THEN conjunct1]
    and en = h [THEN conjunct2, THEN conjunct2, THEN conjunct2]
  from en have sup: "a \<in> set supportedAlgs" unfolding supportedAlgs_names .
  from loop_index [OF v l i al sup] obtain r
    where r: "out ! i = Ref r" "length (objects s) \<le> r" "r < length (objects s')"
      "objects s' ! r = (\<lambda>f. if f \<in> specPrivateFields a then None
                                 else (objects s ! (keys s ! i)) f)" by blast
  from r(4) have "objects s' ! r
                       = (\<lambda>f. if f \<in> (if a \<in> {''RS256'', ''RS384'', ''RS512'',
                                                 ''PS256'', ''PS384'', ''PS512''}
                                        then {''d'', ''p'', ''q'', ''dp'', ''dq'', ''qi''}
                                        else {''d''})
                              then None else (objects s ! (keys s ! i)) f)"
    unfolding specPrivateFields_names [OF en] .
  with r show "\<exists>r. out ! i = Ref r \<and> length (objects s) \<le> r \<and> r < length (objects s') \<and>
                     objects s' ! r = (\<lambda>f. if f \<in> specPrivateFields a then None
                                            else (objects s ! (keys s ! i)) f) \<and>
                     objects s' ! r
                       = (\<lambda>f. if f \<in> (if a \<in> {''RS256'', ''RS384'', ''RS512'',
                                                 ''PS256'', ''PS384'', ''PS512''}
                                        then {''d'', ''p'', ''q'', ''dp'', ''dq'', ''qi''}
                                        else {''d''})
                              then None else (objects s ! (keys s ! i)) f)"
    by (intro exI [of _ r] conjI)
qed


theorem redaction_completeness_witness:
  "(let s = \<lparr>objects =
                [[''kid'' \<mapsto> ''r'', ''alg'' \<mapsto> ''PS384'', ''n'' \<mapsto> ''N'', ''e'' \<mapsto> ''E'', ''d'' \<mapsto> ''D'',
                  ''p'' \<mapsto> ''P'', ''q'' \<mapsto> ''Q'', ''dp'' \<mapsto> ''DP'', ''dq'' \<mapsto> ''DQ'', ''qi'' \<mapsto> ''QI''],
                 [''kid'' \<mapsto> ''e'', ''alg'' \<mapsto> ''ES256K'', ''crv'' \<mapsto> ''secp256k1'', ''x'' \<mapsto> ''X'',
                  ''y'' \<mapsto> ''Y'', ''d'' \<mapsto> ''D''],
                 [''kid'' \<mapsto> ''o'', ''alg'' \<mapsto> ''EdDSA'', ''crv'' \<mapsto> ''Ed25519'', ''x'' \<mapsto> ''X'',
                  ''d'' \<mapsto> ''D'']],
              keys = [0, 1, 2]\<rparr>
    in wellFormed s \<and>
       fst (JWKStore_toJSON False s) = Inr [Ref 8, Ref 9, Ref 10] \<and>
       objects (snd (JWKStore_toJSON False s)) ! 8
         = (\<lambda>f. if f \<in> {''d'', ''p'', ''q'', ''dp'', ''dq'', ''qi''} then None
                else (objects s ! (keys s ! 0)) f) \<and>
       objects (snd (JWKStore_toJSON False s)) ! 9
         = (\<lambda>f. if f \<in> {''d''} then None else (objects s ! (keys s ! 1)) f) \<and>
       objects (snd (JWKStore_toJSON False s)) ! 10
         = (\<lambda>f. if f \<in> {''d''} then None else (objects s ! (keys s ! 2)) f))"
proof -
  let ?s = "\<lparr>objects =
                [[''kid'' \<mapsto> ''r'', ''alg'' \<mapsto> ''PS384'', ''n'' \<mapsto> ''N'', ''e'' \<mapsto> ''E'', ''d'' \<mapsto> ''D'',
                  ''p'' \<mapsto> ''P'', ''q'' \<mapsto> ''Q'', ''dp'' \<mapsto> ''DP'', ''dq'' \<mapsto> ''DQ'', ''qi'' \<mapsto> ''QI''],
                 [''kid'' \<mapsto> ''e'', ''alg'' \<mapsto> ''ES256K'', ''crv'' \<mapsto> ''secp256k1'', ''x'' \<mapsto> ''X'',
                  ''y'' \<mapsto> ''Y'', ''d'' \<mapsto> ''D''],
                 [''kid'' \<mapsto> ''o'', ''alg'' \<mapsto> ''EdDSA'', ''crv'' \<mapsto> ''Ed25519'', ''x'' \<mapsto> ''X'',
                  ''d'' \<mapsto> ''D'']],
              keys = [0, 1, 2]\<rparr>"
  let ?r = "JWKStore_toJSON False ?s"
  have wf: "wellFormed ?s" by (simp add: wellFormed_def)
  have f: "fst ?r = Inr [Ref 8, Ref 9, Ref 10]"
    by (simp add: JWKStore_toJSON_def KeyRotator_toJSON_def toJSON_body_def assertIsString_def
      inTransformerMap_def supportedAlgs_def privateToPublicTransformerMap_def
      callCleaner_def RsaPrivateFieldsRemover_def EcdsaPrivateFieldsRemover_def
      EddsaPrivateFieldsRemover_def removeKey_def alloc_def split: prod.splits)
  then have e: "?r = (Inr [Ref 8, Ref 9, Ref 10], snd ?r)" by (simp add: prod_eq_iff)
  note t = redaction_completeness [OF wf, of "[Ref 8, Ref 9, Ref 10]" "snd ?r",
      THEN conjunct2, THEN conjunct2, THEN mp, THEN conjunct2]
  have p0: "?r = (Inr [Ref 8, Ref 9, Ref 10], snd ?r) \<and> 0 < length (keys ?s) \<and>
      (objects ?s ! (keys ?s ! 0)) ''alg'' = Some ''PS384'' \<and>
      ''PS384'' \<in> {''RS256'', ''RS384'', ''RS512'', ''PS256'', ''PS384'', ''PS512'',
                ''ES256'', ''ES256K'', ''ES384'', ''ES512'', ''EdDSA''}"
    using e by simp
  have p1: "?r = (Inr [Ref 8, Ref 9, Ref 10], snd ?r) \<and> 1 < length (keys ?s) \<and>
      (objects ?s ! (keys ?s ! 1)) ''alg'' = Some ''ES256K'' \<and>
      ''ES256K'' \<in> {''RS256'', ''RS384'', ''RS512'', ''PS256'', ''PS384'', ''PS512'',
                ''ES256'', ''ES256K'', ''ES384'', ''ES512'', ''EdDSA''}"
    using e by simp
  have p2: "?r = (Inr [Ref 8, Ref 9, Ref 10], snd ?r) \<and> 2 < length (keys ?s) \<and>
      (objects ?s ! (keys ?s ! 2)) ''alg'' = Some ''EdDSA'' \<and>
      ''EdDSA'' \<in> {''RS256'', ''RS384'', ''RS512'', ''PS256'', ''PS384'', ''PS512'',
                ''ES256'', ''ES256K'', ''ES384'', ''ES512'', ''EdDSA''}"
    using e by simp
  from t [OF p0] obtain r0 where n0: "[Ref 8, Ref 9, Ref 10] ! 0 = Ref r0"
    and c0: "objects (snd ?r) ! r0
           = (\<lambda>f. if f \<in> (if ''PS384'' \<in> {''RS256'', ''RS384'', ''RS512'',
                                           ''PS256'', ''PS384'', ''PS512''}
                            then {''d'', ''p'', ''q'', ''dp'', ''dq'', ''qi''}
                            else {''d''})
                  then None else (objects ?s ! (keys ?s ! 0)) f)" by blast
  from n0 have "r0 = 8" by simp
  moreover have "(\<lambda>f. if f \<in> (if ''PS384'' \<in> {''RS256'', ''RS384'', ''RS512'',
                                           ''PS256'', ''PS384'', ''PS512''}
                            then {''d'', ''p'', ''q'', ''dp'', ''dq'', ''qi''}
                            else {''d''})
                  then None else (objects ?s ! (keys ?s ! 0)) f)
         = (\<lambda>f. if f \<in> {''d'', ''p'', ''q'', ''dp'', ''dq'', ''qi''} then None
                else (objects ?s ! (keys ?s ! 0)) f)" by simp
  ultimately have a: "objects (snd ?r) ! 8
         = (\<lambda>f. if f \<in> {''d'', ''p'', ''q'', ''dp'', ''dq'', ''qi''} then None
                else (objects ?s ! (keys ?s ! 0)) f)"
    using c0 by (simp only:)
  from t [OF p1] obtain r1 where n1: "[Ref 8, Ref 9, Ref 10] ! 1 = Ref r1"
    and c1: "objects (snd ?r) ! r1
           = (\<lambda>f. if f \<in> (if ''ES256K'' \<in> {''RS256'', ''RS384'', ''RS512'',
                                           ''PS256'', ''PS384'', ''PS512''}
                            then {''d'', ''p'', ''q'', ''dp'', ''dq'', ''qi''}
                            else {''d''})
                  then None else (objects ?s ! (keys ?s ! 1)) f)" by blast
  from n1 have "r1 = 9" by simp
  moreover have "(\<lambda>f. if f \<in> (if ''ES256K'' \<in> {''RS256'', ''RS384'', ''RS512'',
                                           ''PS256'', ''PS384'', ''PS512''}
                            then {''d'', ''p'', ''q'', ''dp'', ''dq'', ''qi''}
                            else {''d''})
                  then None else (objects ?s ! (keys ?s ! 1)) f)
         = (\<lambda>f. if f \<in> {''d''} then None
                else (objects ?s ! (keys ?s ! 1)) f)" by simp
  ultimately have b: "objects (snd ?r) ! 9
         = (\<lambda>f. if f \<in> {''d''} then None
                else (objects ?s ! (keys ?s ! 1)) f)"
    using c1 by (simp only:)
  from t [OF p2] obtain r2 where n2: "[Ref 8, Ref 9, Ref 10] ! 2 = Ref r2"
    and c2: "objects (snd ?r) ! r2
           = (\<lambda>f. if f \<in> (if ''EdDSA'' \<in> {''RS256'', ''RS384'', ''RS512'',
                                           ''PS256'', ''PS384'', ''PS512''}
                            then {''d'', ''p'', ''q'', ''dp'', ''dq'', ''qi''}
                            else {''d''})
                  then None else (objects ?s ! (keys ?s ! 2)) f)" by blast
  from n2 have "r2 = 10" by simp
  moreover have "(\<lambda>f. if f \<in> (if ''EdDSA'' \<in> {''RS256'', ''RS384'', ''RS512'',
                                           ''PS256'', ''PS384'', ''PS512''}
                            then {''d'', ''p'', ''q'', ''dp'', ''dq'', ''qi''}
                            else {''d''})
                  then None else (objects ?s ! (keys ?s ! 2)) f)
         = (\<lambda>f. if f \<in> {''d''} then None
                else (objects ?s ! (keys ?s ! 2)) f)" by simp
  ultimately have c: "objects (snd ?r) ! 10
         = (\<lambda>f. if f \<in> {''d''} then None
                else (objects ?s ! (keys ?s ! 2)) f)"
    using c2 by (simp only:)
  show ?thesis unfolding Let_def using wf f a b c by blast
qed

text \<open>
  C10. With \<open>includePrivateFields\<close> the export never throws, whatever the \<open>alg\<close>
  members of the records are: it returns one newly allocated object for each record, in
  the order of \<open>#keys\<close>, with all the members of the record, and changes nothing else.
\<close>

theorem export_with_private_fields:
  assumes "wellFormed s"
  shows "JWKStore_toJSON True s
         = (Inr (map Ref [length (objects s)..<length (objects s) + length (keys s)]),
            s\<lparr>objects := objects s @ map ((!) (objects s)) (keys s)\<rparr>)"
proof -
  from assms have "\<forall>key\<in>set (keys s). key < length (objects s)"
    by (simp add: wellFormed_def)
  from loop_private [OF this] show ?thesis
    by (simp add: JWKStore_toJSON_def KeyRotator_toJSON_def)
qed

theorem export_with_private_fields_witness:
  "JWKStore_toJSON True
     \<lparr>objects = [[''kid'' \<mapsto> ''a'', ''d'' \<mapsto> ''x''],
                [''kid'' \<mapsto> ''b'', ''alg'' \<mapsto> ''HS256'', ''k'' \<mapsto> ''y'']],
      keys = [1, 0]\<rparr>
   = (Inr [Ref 2, Ref 3],
      \<lparr>objects = [[''kid'' \<mapsto> ''a'', ''d'' \<mapsto> ''x''],
                 [''kid'' \<mapsto> ''b'', ''alg'' \<mapsto> ''HS256'', ''k'' \<mapsto> ''y''],
                 [''kid'' \<mapsto> ''b'', ''alg'' \<mapsto> ''HS256'', ''k'' \<mapsto> ''y''],
                 [''kid'' \<mapsto> ''a'', ''d'' \<mapsto> ''x'']],
       keys = [1, 0]\<rparr>)"
proof -
  have wf: "wellFormed \<lparr>objects = [[''kid'' \<mapsto> ''a'', ''d'' \<mapsto> ''x''],
                [''kid'' \<mapsto> ''b'', ''alg'' \<mapsto> ''HS256'', ''k'' \<mapsto> ''y'']],
      keys = [1, 0]\<rparr>" by (simp add: wellFormed_def)
  have u: "[2..<4] = [2, 3::nat]" by (simp add: upt_rec)
  show ?thesis using export_with_private_fields [OF wf] u by simp
qed

text \<open>
  C9. An export, with or without private fields, leaves \<open>#keys\<close> and every object
  that existed before it as they were, and an export repeated right after it gives the same
  result: the same error, or entries with the same contents in the same order.
\<close>

theorem export_frame:
  assumes "wellFormed s"
    and "JWKStore_toJSON inc s = (r, s')"
    and "JWKStore_toJSON inc s' = (r', s'')"
  shows "keys s' = keys s \<and>
         (\<forall>a<length (objects s). objects s' ! a = objects s ! a) \<and>
         map_sum id (map (contents (objects s''))) r'
           = map_sum id (map (contents (objects s'))) r"
proof -
  let ?h = "objects s"
  from assms(2) have l1: "toJSON_loop inc (keys s) [] ?h = (r, objects s')"
    and k: "keys s' = keys s"
    by (auto simp: JWKStore_toJSON_def KeyRotator_toJSON_def split: prod.splits)
  from assms(3) k have l2: "toJSON_loop inc (keys s) [] (objects s') = (r', objects s'')"
    by (auto simp: JWKStore_toJSON_def KeyRotator_toJSON_def split: prod.splits)
  from assms(1) have v: "\<forall>key\<in>set (keys s). key < length ?h" by (simp add: wellFormed_def)
  have p: "prefix ?h (objects s')" using loop_frame [OF v l1] .
  then have same: "\<forall>a<length ?h. objects s' ! a = ?h ! a" by (simp add: prefix_nth)
  have "\<forall>key\<in>set (keys s). key < length ?h \<and> key < length (objects s') \<and>
          ?h ! key = objects s' ! key"
    using v same prefix_length_le [OF p] by auto
  from loop_rel [OF this, of inc] l1 l2
  have "map_sum id (map (contents (objects s''))) r' = map_sum id (map (contents (objects s'))) r"
    by (cases r) auto
  with k same show ?thesis by simp
qed

theorem export_frame_witness:
  "(let s = \<lparr>objects = [[''kid'' \<mapsto> ''a'', ''alg'' \<mapsto> ''ES256'', ''x'' \<mapsto> ''X'', ''d'' \<mapsto> ''D''],
                         [''kid'' \<mapsto> ''b'', ''alg'' \<mapsto> ''EdDSA'', ''x'' \<mapsto> ''X'', ''d'' \<mapsto> ''D'']],
              keys = [1, 0]\<rparr>;
        s' = snd (JWKStore_toJSON False s);
        s'' = snd (JWKStore_toJSON False s')
    in wellFormed s \<and>
       fst (JWKStore_toJSON False s) = Inr [Ref 2, Ref 3] \<and>
       fst (JWKStore_toJSON False s') = Inr [Ref 4, Ref 5] \<and>
       keys s' = keys s \<and>
       map_sum id (map (contents (objects s''))) (fst (JWKStore_toJSON False s'))
         = map_sum id (map (contents (objects s'))) (fst (JWKStore_toJSON False s)))"
proof -
  let ?s = "\<lparr>objects = [[''kid'' \<mapsto> ''a'', ''alg'' \<mapsto> ''ES256'', ''x'' \<mapsto> ''X'', ''d'' \<mapsto> ''D''],
                         [''kid'' \<mapsto> ''b'', ''alg'' \<mapsto> ''EdDSA'', ''x'' \<mapsto> ''X'', ''d'' \<mapsto> ''D'']],
              keys = [1, 0]\<rparr>"
  let ?s' = "snd (JWKStore_toJSON False ?s)"
  let ?s'' = "snd (JWKStore_toJSON False ?s')"
  have wf: "wellFormed ?s" by (simp add: wellFormed_def)
  have a: "JWKStore_toJSON False ?s = (fst (JWKStore_toJSON False ?s), ?s')" by simp
  have b: "JWKStore_toJSON False ?s' = (fst (JWKStore_toJSON False ?s'), ?s'')" by simp
  note fr = export_frame [OF wf a b]
  have e1: "JWKStore_toJSON False ?s
            = (Inr [Ref 2, Ref 3], ?s\<lparr>objects := objects ?s @
                 [[''kid'' \<mapsto> ''b'', ''alg'' \<mapsto> ''EdDSA'', ''x'' \<mapsto> ''X''],
                  [''kid'' \<mapsto> ''a'', ''alg'' \<mapsto> ''ES256'', ''x'' \<mapsto> ''X'']]\<rparr>)"
    by (simp add: JWKStore_toJSON_def KeyRotator_toJSON_def toJSON_body_def assertIsString_def
      inTransformerMap_def supportedAlgs_def privateToPublicTransformerMap_def
      callCleaner_def EcdsaPrivateFieldsRemover_def EddsaPrivateFieldsRemover_def
      removeKey_def alloc_def fun_upd_twist)
  have e2: "fst (JWKStore_toJSON False ?s') = Inr [Ref 4, Ref 5]"
    unfolding e1
    by (simp add: JWKStore_toJSON_def KeyRotator_toJSON_def toJSON_body_def assertIsString_def
      inTransformerMap_def supportedAlgs_def privateToPublicTransformerMap_def
      callCleaner_def EcdsaPrivateFieldsRemover_def EddsaPrivateFieldsRemover_def
      removeKey_def alloc_def)
  have e1': "fst (JWKStore_toJSON False ?s) = Inr [Ref 2, Ref 3]" unfolding e1 by simp
  show ?thesis unfolding Let_def using wf e1' e2 fr by blast
qed

text \<open>
  The export without private fields throws as soon as it meets a record without \<open>alg\<close>,
  or with an \<open>alg\<close> that is neither supported nor \<open>constructor\<close> nor \<open>toString\<close>.
\<close>

lemma loop_rejects:
  assumes "\<forall>key\<in>set ks. key < length h"
    and "\<exists>key\<in>set ks. (h ! key) ''alg'' = None \<or>
           (\<exists>a. (h ! key) ''alg'' = Some a \<and> a \<notin> set supportedAlgs \<and>
                a \<noteq> ''constructor'' \<and> a \<noteq> ''toString'')"
  shows "\<exists>e h'. toJSON_loop False ks [] h = (Inl e, h')"
  using assms
proof (induction ks arbitrary: h)
  case Nil
  then show ?case by simp
next
  case (Cons key rest)
  from Cons.prems(1) have kh: "key < length h" by simp
  show ?case
  proof (cases "toJSON_body False key h")
    case (Inl e)
    then show ?thesis unfolding loop_Cons by simp
  next
    case (Inr p)
    obtain v h1 where p: "p = (v, h1)" by (cases p)
    have ok: "\<not> ((h ! key) ''alg'' = None \<or>
           (\<exists>a. (h ! key) ''alg'' = Some a \<and> a \<notin> set supportedAlgs \<and>
                a \<noteq> ''constructor'' \<and> a \<noteq> ''toString''))"
    proof
      assume "(h ! key) ''alg'' = None \<or>
           (\<exists>a. (h ! key) ''alg'' = Some a \<and> a \<notin> set supportedAlgs \<and>
                a \<noteq> ''constructor'' \<and> a \<noteq> ''toString'')"
      then show False
      proof
        assume "(h ! key) ''alg'' = None"
        from body_missing [OF this] Inr show False by simp
      next
        assume "\<exists>a. (h ! key) ''alg'' = Some a \<and> a \<notin> set supportedAlgs \<and>
                a \<noteq> ''constructor'' \<and> a \<noteq> ''toString''"
        then obtain a where a: "(h ! key) ''alg'' = Some a" "a \<notin> set supportedAlgs"
          "a \<noteq> ''constructor''" "a \<noteq> ''toString''" by auto
        from body_inherited [OF a(1,2)] a(3,4) Inr show False by (simp split: if_splits)
      qed
    qed
    from body_frame [OF kh] Inr p have ph: "prefix h h1" by simp
    have v1: "\<forall>key\<in>set rest. key < length h1"
      using Cons.prems(1) prefix_length_le [OF ph] by auto
    from Cons.prems(2) ok obtain k where k: "k \<in> set rest"
      "(h ! k) ''alg'' = None \<or>
           (\<exists>a. (h ! k) ''alg'' = Some a \<and> a \<notin> set supportedAlgs \<and>
                a \<noteq> ''constructor'' \<and> a \<noteq> ''toString'')" by auto
    from k(1) Cons.prems(1) have "k < length h" by simp
    with ph have "h1 ! k = h ! k" by (simp add: prefix_nth)
    with k(2) have "(h1 ! k) ''alg'' = None \<or>
           (\<exists>a. (h1 ! k) ''alg'' = Some a \<and> a \<notin> set supportedAlgs \<and>
                a \<noteq> ''constructor'' \<and> a \<noteq> ''toString'')" by simp
    then have "\<exists>key\<in>set rest. (h1 ! key) ''alg'' = None \<or>
           (\<exists>a. (h1 ! key) ''alg'' = Some a \<and> a \<notin> set supportedAlgs \<and>
                a \<noteq> ''constructor'' \<and> a \<noteq> ''toString'')"
      using k(1) by (intro bexI [of _ k])
    from Cons.IH [OF v1 this] obtain e h'
      where "toJSON_loop False rest [] h1 = (Inl e, h')" by blast
    then have "toJSON_loop False (key # rest) [] h = (Inl e, h')"
      unfolding loop_Cons Inr p by simp
    then show ?thesis by blast
  qed
qed

lemma export_rejects_unknown_alg:
  assumes "wellFormed s"
    and "key \<in> set (keys s)"
    and "(objects s ! key) ''alg'' = None \<or>
           (\<exists>a. (objects s ! key) ''alg'' = Some a \<and> a \<notin> set supportedAlgs \<and>
                a \<noteq> ''constructor'' \<and> a \<noteq> ''toString'')"
  shows "\<exists>e. fst (JWKStore_toJSON False s) = Inl e"
proof -
  from assms(1) have v: "\<forall>key\<in>set (keys s). key < length (objects s)"
    by (simp add: wellFormed_def)
  have "\<exists>key\<in>set (keys s). (objects s ! key) ''alg'' = None \<or>
           (\<exists>a. (objects s ! key) ''alg'' = Some a \<and> a \<notin> set supportedAlgs \<and>
                a \<noteq> ''constructor'' \<and> a \<noteq> ''toString'')"
    using assms(3,2) by (intro bexI [of _ key])
  from loop_rejects [OF v this] obtain e h'
    where "toJSON_loop False (keys s) [] (objects s) = (Inl e, h')" by blast
  then have "fst (JWKStore_toJSON False s) = Inl e"
    by (simp add: JWKStore_toJSON_def KeyRotator_toJSON_def)
  then show ?thesis by blast
qed

text \<open>
  C4. The export without private fields is meant to throw for a record whose \<open>alg\<close>
  is not one of the keys of the transformer map. For the \<open>alg\<close> \<open>constructor\<close>,
  which is not supported, the \<open>in\<close> test finds the inherited property and the export
  returns the stored object itself, with its private member \<open>d\<close>, instead of throwing.
\<close>

theorem export_constructor_alg_unredacted:
  "''constructor'' \<notin> set supportedAlgs \<and>
   JWKStore_toJSON False
     \<lparr>objects = [[''kid'' \<mapsto> ''k1'', ''alg'' \<mapsto> ''constructor'', ''d'' \<mapsto> ''secret'']],
      keys = [0]\<rparr>
   = (Inr [Ref 0],
      \<lparr>objects = [[''kid'' \<mapsto> ''k1'', ''alg'' \<mapsto> ''constructor'', ''d'' \<mapsto> ''secret'']],
       keys = [0]\<rparr>)"
  by (simp add: JWKStore_toJSON_def KeyRotator_toJSON_def toJSON_body_def assertIsString_def
      inTransformerMap_def supportedAlgs_def privateToPublicTransformerMap_def
      objectPrototypeProperties_def callCleaner_def)

subsection \<open>The facade\<close>

lemma toHex_length: "length (toHex bs) = 2 * length bs"
  by (induction bs) (simp_all add: toHex_def)

lemma normalizeKey_last:
  "normalizeKey randomBytes (length h) os (h @ [c])
   = h @ [if c ''kid'' \<noteq> None then c
          else if os \<noteq> None \<and> opts_kid (the os) \<noteq> None
               then c(''kid'' \<mapsto> the (opts_kid (the os)))
               else c(''kid'' \<mapsto> generateRandomKid randomBytes)]"
  by (simp add: normalizeKey_def)

lemma splice_rest_subset: "set (snd (splice i n xs)) \<subseteq> set xs"
  by (auto simp: splice_def Let_def dest: in_set_takeD in_set_dropD)

lemma rotator_add_keys:
  "\<exists>ks. keys (KeyRotator_add key s) = ks @ [key] \<and> set ks \<subseteq> set (keys s)"
  using splice_rest_subset [of "findNext ((objects s ! key) ''kid'') s" 1 "keys s"]
  by (auto simp: KeyRotator_add_def Let_def)

lemma rotator_add_objects: "objects (KeyRotator_add key s) = objects s"
  by (simp add: KeyRotator_add_def Let_def)

lemma add_unfold:
  "JWKStore_add parseJwk randomBytes jwk s =
     (let c = objects s ! jwk;
          c' = (if c ''kid'' \<noteq> None then c else c(''kid'' \<mapsto> generateRandomKid randomBytes));
          s1 = s\<lparr>objects := objects s @ [c']\<rparr>
      in case c ''alg'' of
           None \<Rightarrow> (Inl UnspecifiedAlg, s1)
         | Some a \<Rightarrow>
             if a \<notin> set supportedAlgs then (Inl (UnsupportedAlg a), s1)
             else (case parseJwk c' of
                     Inl e \<Rightarrow> (Inl (JoseError e), s1)
                   | Inr k \<Rightarrow>
                       if \<not> instanceofKeyObject k \<or> keyType k \<noteq> Some Private
                       then (Inl InvalidJwkType, s1)
                       else (Inr (length (objects s)), KeyRotator_add (length (objects s)) s1)))"
  by (simp add: JWKStore_add_def alloc_def normalizeKey_last Let_def
      cong: option.case_cong sum.case_cong if_cong)

lemma add_objects:
  assumes "JWKStore_add parseJwk randomBytes jwk s = (r, s')"
  shows "objects s' = objects s @
           [if (objects s ! jwk) ''kid'' \<noteq> None then objects s ! jwk
            else (objects s ! jwk)(''kid'' \<mapsto> generateRandomKid randomBytes)]"
  using assms unfolding add_unfold Let_def
  by (auto simp: rotator_add_objects split: option.splits if_splits sum.splits)

lemma add_failure_keys:
  assumes "JWKStore_add parseJwk randomBytes jwk s = (Inl e, s')"
  shows "keys s' = keys s"
  using assms unfolding add_unfold Let_def
  by (auto split: option.splits if_splits sum.splits)

text \<open>
  C7. \<open>JWKStore.add\<close> fails with the "unspecified alg" error exactly when the JWK has
  no \<open>alg\<close>, with the "unsupported alg" error for \<open>a\<close> exactly when its \<open>alg\<close> is
  \<open>a\<close> and \<open>a\<close> is not supported, and with the "invalid JWK type" error exactly when
  its \<open>alg\<close> is supported and \<open>parseJwk\<close>, given the normalised copy, resolves to
  something that is not a \<open>KeyObject\<close> of type private. Whenever it fails, for these
  reasons or because \<open>parseJwk\<close> rejects, \<open>#keys\<close> and every object that existed
  before the call are as they were.
\<close>

theorem add_error_contract:
  assumes "JWKStore_add parseJwk randomBytes jwk s = (r, s')"
  shows "(r = Inl UnspecifiedAlg \<longleftrightarrow> (objects s ! jwk) ''alg'' = None) \<and>
         (r = Inl (UnsupportedAlg a)
            \<longleftrightarrow> (objects s ! jwk) ''alg'' = Some a \<and> a \<notin> set supportedAlgs) \<and>
         (r = Inl InvalidJwkType
            \<longleftrightarrow> (\<exists>b\<in>set supportedAlgs. (objects s ! jwk) ''alg'' = Some b) \<and>
                (\<exists>k. parseJwk (objects s' ! length (objects s)) = Inr k \<and>
                     (\<not> instanceofKeyObject k \<or> keyType k \<noteq> Some Private))) \<and>
         ((\<exists>e. r = Inl e) \<longrightarrow>
            keys s' = keys s \<and> (\<forall>x<length (objects s). objects s' ! x = objects s ! x))"
proof -
  let ?c = "objects s ! jwk"
  let ?c' = "if ?c ''kid'' \<noteq> None then ?c else ?c(''kid'' \<mapsto> generateRandomKid randomBytes)"
  have ob: "objects s' = objects s @ [?c']" using add_objects [OF assms] .
  then have copy: "objects s' ! length (objects s) = ?c'" by simp
  have old: "\<forall>x<length (objects s). objects s' ! x = objects s ! x"
    unfolding ob by (simp add: nth_append)
  have r: "r = (case ?c ''alg'' of
                  None \<Rightarrow> Inl UnspecifiedAlg
                | Some a \<Rightarrow>
                    if a \<notin> set supportedAlgs then Inl (UnsupportedAlg a)
                    else (case parseJwk ?c' of
                            Inl e \<Rightarrow> Inl (JoseError e)
                          | Inr k \<Rightarrow>
                              if \<not> instanceofKeyObject k \<or> keyType k \<noteq> Some Private
                              then Inl InvalidJwkType
                              else Inr (length (objects s))))"
    using assms unfolding add_unfold Let_def
    by (auto split: option.splits if_splits sum.splits)
  have 1: "r = Inl UnspecifiedAlg \<longleftrightarrow> ?c ''alg'' = None"
    unfolding r by (auto split: option.splits sum.splits)
  have 2: "r = Inl (UnsupportedAlg a) \<longleftrightarrow> ?c ''alg'' = Some a \<and> a \<notin> set supportedAlgs"
    unfolding r by (auto split: option.splits sum.splits)
  have 3: "r = Inl InvalidJwkType
            \<longleftrightarrow> (\<exists>b\<in>set supportedAlgs. ?c ''alg'' = Some b) \<and>
                (\<exists>k. parseJwk (objects s' ! length (objects s)) = Inr k \<and>
                     (\<not> instanceofKeyObject k \<or> keyType k \<noteq> Some Private))"
    unfolding copy unfolding r by (auto split: option.splits sum.splits)
  have 4: "(\<exists>e. r = Inl e) \<longrightarrow> keys s' = keys s"
    using assms add_failure_keys by blast
  from 1 2 3 4 old show ?thesis by blast
qed

theorem add_error_contract_witness:
  "(let s = \<lparr>objects = [[''kty'' \<mapsto> ''RSA''], [''kty'' \<mapsto> ''oct'', ''alg'' \<mapsto> ''HS256''],
                         [''kty'' \<mapsto> ''RSA'', ''alg'' \<mapsto> ''RS256'', ''n'' \<mapsto> ''N'']],
              keys = []\<rparr>;
        parseJwk = (\<lambda>j. if j ''d'' = None then Inr (KeyObject Public) else Inr (KeyObject Private));
        randomBytes = (\<lambda>n. replicate n 0)
    in fst (JWKStore_add parseJwk randomBytes 0 s) = Inl UnspecifiedAlg \<and>
       fst (JWKStore_add parseJwk randomBytes 1 s) = Inl (UnsupportedAlg ''HS256'') \<and>
       fst (JWKStore_add parseJwk randomBytes 2 s) = Inl InvalidJwkType \<and>
       keys (snd (JWKStore_add parseJwk randomBytes 0 s)) = [] \<and>
       keys (snd (JWKStore_add parseJwk randomBytes 1 s)) = [] \<and>
       keys (snd (JWKStore_add parseJwk randomBytes 2 s)) = [])"
proof -
  let ?s = "\<lparr>objects = [[''kty'' \<mapsto> ''RSA''], [''kty'' \<mapsto> ''oct'', ''alg'' \<mapsto> ''HS256''],
                         [''kty'' \<mapsto> ''RSA'', ''alg'' \<mapsto> ''RS256'', ''n'' \<mapsto> ''N'']],
              keys = []\<rparr>"
  let ?p = "\<lambda>j :: jwk. if j ''d'' = None then Inr (KeyObject Public) :: string + keyLike
                       else Inr (KeyObject Private)"
  let ?rb = "\<lambda>n. replicate n (0 :: 8 word)"
  have c: "\<And>jwk. JWKStore_add ?p ?rb jwk ?s
             = (fst (JWKStore_add ?p ?rb jwk ?s), snd (JWKStore_add ?p ?rb jwk ?s))" by simp
  note t0 = add_error_contract [OF c [of 0]]
  note t1 = add_error_contract [OF c [of 1], of "''HS256''"]
  note t2 = add_error_contract [OF c [of 2]]
  have "objects (snd (JWKStore_add ?p ?rb 2 ?s))
        = objects ?s @ [[''kty'' \<mapsto> ''RSA'', ''alg'' \<mapsto> ''RS256'', ''n'' \<mapsto> ''N'',
                         ''kid'' \<mapsto> generateRandomKid ?rb]]"
    using add_objects [OF c [of 2]] by simp
  then have ob: "objects (snd (JWKStore_add ?p ?rb 2 ?s)) ! length (objects ?s)
            = [''kty'' \<mapsto> ''RSA'', ''alg'' \<mapsto> ''RS256'', ''n'' \<mapsto> ''N'',
               ''kid'' \<mapsto> generateRandomKid ?rb]"
    by (simp only: nth_append_length)
  have rs: "''RS256'' \<in> set supportedAlgs" and hs: "''HS256'' \<notin> set supportedAlgs"
    by (simp_all add: supportedAlgs_def privateToPublicTransformerMap_def)
  have a0: "fst (JWKStore_add ?p ?rb 0 ?s) = Inl UnspecifiedAlg" using t0 by simp
  have a1: "fst (JWKStore_add ?p ?rb 1 ?s) = Inl (UnsupportedAlg ''HS256'')"
    using t1 hs by simp
  have pk: "?p (objects (snd (JWKStore_add ?p ?rb 2 ?s)) ! length (objects ?s))
            = Inr (KeyObject Public)"
    unfolding ob by simp
  have "(\<exists>b\<in>set supportedAlgs. (objects ?s ! 2) ''alg'' = Some b) \<and>
        (\<exists>k. ?p (objects (snd (JWKStore_add ?p ?rb 2 ?s)) ! length (objects ?s)) = Inr k \<and>
             (\<not> instanceofKeyObject k \<or> keyType k \<noteq> Some Private))"
    unfolding pk using rs by simp
  with t2 have a2: "fst (JWKStore_add ?p ?rb 2 ?s) = Inl InvalidJwkType" by blast
  have k0: "keys (snd (JWKStore_add ?p ?rb 0 ?s)) = []" using t0 a0 by simp
  have k1: "keys (snd (JWKStore_add ?p ?rb 1 ?s)) = []" using t1 a1 by simp
  have k2: "keys (snd (JWKStore_add ?p ?rb 2 ?s)) = []" using t2 a2 by simp
  show ?thesis unfolding Let_def using a0 a1 a2 k0 k1 k2 by blast
qed

lemma generate_unfold:
  "JWKStore_generate generateKeyPair fromKeyLike randomBytes alg os s =
     (case generateKeyPair alg (if os \<noteq> None \<and> opts_crv (the os) \<noteq> None
                                 then opts_crv (the os) else None) of
        Inl e \<Rightarrow> (Inl (JoseError e), s)
      | Inr pair \<Rightarrow>
          (case fromKeyLike (privateKey pair) of
             Inl e \<Rightarrow> (Inl (JoseError e), s)
           | Inr members \<Rightarrow>
               (Inr (length (objects s)),
                KeyRotator_add (length (objects s))
                  (s\<lparr>objects := objects s @
                     [if members ''kid'' \<noteq> None then members(''alg'' \<mapsto> alg)
                      else if os \<noteq> None \<and> opts_kid (the os) \<noteq> None
                           then members(''alg'' \<mapsto> alg, ''kid'' \<mapsto> the (opts_kid (the os)))
                           else members(''alg'' \<mapsto> alg,
                                        ''kid'' \<mapsto> generateRandomKid randomBytes)]\<rparr>))))"
  by (simp add: JWKStore_generate_def alloc_def Let_def normalizeKey_last
      cong: option.case_cong sum.case_cong if_cong)

lemma rotator_add_last:
  "keys (KeyRotator_add key s) \<noteq> [] \<and> last (keys (KeyRotator_add key s)) = key"
  using rotator_add_keys [of key s] by auto

lemma rotator_add_invariants:
  assumes "wellFormed s" and "kidsPresent s"
    and "key < length (objects s)" and "(objects s ! key) ''kid'' \<noteq> None"
  shows "wellFormed (KeyRotator_add key s) \<and> kidsPresent (KeyRotator_add key s)"
proof -
  from rotator_add_keys [of key s] obtain ks
    where "keys (KeyRotator_add key s) = ks @ [key]" "set ks \<subseteq> set (keys s)" by blast
  with assms show ?thesis
    by (auto simp: wellFormed_def kidsPresent_def rotator_add_objects)
qed

lemma grown_store_invariants:
  assumes "wellFormed s" and "kidsPresent s"
  shows "wellFormed (s\<lparr>objects := objects s @ [c]\<rparr>) \<and>
         kidsPresent (s\<lparr>objects := objects s @ [c]\<rparr>)"
  using assms by (auto simp: wellFormed_def kidsPresent_def nth_append)

lemma add_invariants:
  assumes "wellFormed s" and "kidsPresent s"
    and "JWKStore_add parseJwk randomBytes jwk s = (r, s')"
  shows "wellFormed s' \<and> kidsPresent s'"
proof -
  let ?c = "objects s ! jwk"
  let ?c' = "if ?c ''kid'' \<noteq> None then ?c else ?c(''kid'' \<mapsto> generateRandomKid randomBytes)"
  let ?s1 = "s\<lparr>objects := objects s @ [?c']\<rparr>"
  note g = grown_store_invariants [OF assms(1,2), of ?c']
  have "s' = ?s1 \<or> s' = KeyRotator_add (length (objects s)) ?s1"
    using assms(3) unfolding add_unfold Let_def
    by (auto split: option.splits if_splits sum.splits)
  then show ?thesis
  proof
    assume "s' = ?s1"
    with g show ?thesis by simp
  next
    assume s': "s' = KeyRotator_add (length (objects s)) ?s1"
    have "length (objects s) < length (objects ?s1)" by simp
    moreover have "(objects ?s1 ! length (objects s)) ''kid'' \<noteq> None" by simp
    ultimately show ?thesis
      unfolding s' using rotator_add_invariants g by blast
  qed
qed

lemma generate_invariants:
  assumes "wellFormed s" and "kidsPresent s"
    and "JWKStore_generate generateKeyPair fromKeyLike randomBytes alg os s = (r, s')"
  shows "wellFormed s' \<and> kidsPresent s'"
proof -
  let ?go = "if os \<noteq> None \<and> opts_crv (the os) \<noteq> None then opts_crv (the os) else None"
  show ?thesis
  proof (cases "generateKeyPair alg ?go")
    case (Inl e)
    with assms(3) have "s' = s" by (simp only: generate_unfold sum.case prod.inject)
    with assms(1,2) show ?thesis by simp
  next
    case pair: (Inr pair)
    show ?thesis
    proof (cases "fromKeyLike (privateKey pair)")
      case (Inl e)
      with assms(3) pair have "s' = s" by (simp only: generate_unfold sum.case prod.inject)
      with assms(1,2) show ?thesis by simp
    next
      case (Inr members)
      let ?c = "if members ''kid'' \<noteq> None then members(''alg'' \<mapsto> alg)
            else if os \<noteq> None \<and> opts_kid (the os) \<noteq> None
                 then members(''alg'' \<mapsto> alg, ''kid'' \<mapsto> the (opts_kid (the os)))
                 else members(''alg'' \<mapsto> alg, ''kid'' \<mapsto> generateRandomKid randomBytes)"
      let ?s1 = "s\<lparr>objects := objects s @ [?c]\<rparr>"
      from assms(3) pair Inr have s': "s' = KeyRotator_add (length (objects s)) ?s1"
        by (simp only: generate_unfold sum.case prod.inject)
      note g = grown_store_invariants [OF assms(1,2), of ?c]
      have "length (objects s) < length (objects ?s1)" by simp
      moreover have "(objects ?s1 ! length (objects s)) ''kid'' \<noteq> None" by simp
      ultimately show ?thesis
        unfolding s' using rotator_add_invariants g by blast
    qed
  qed
qed

lemma add_stored:
  assumes "JWKStore_add parseJwk randomBytes jwk s = (Inr x, s')"
  shows "keys s' \<noteq> [] \<and> last (keys s') = x \<and>
         (objects s' ! x) ''kid''
           = Some (case (objects s ! jwk) ''kid'' of
                     Some k \<Rightarrow> k
                   | None \<Rightarrow> generateRandomKid randomBytes) \<and>
         (\<exists>a\<in>set supportedAlgs. (objects s' ! x) ''alg'' = Some a)"
proof -
  let ?c = "objects s ! jwk"
  let ?c' = "if ?c ''kid'' \<noteq> None then ?c else ?c(''kid'' \<mapsto> generateRandomKid randomBytes)"
  let ?s1 = "s\<lparr>objects := objects s @ [?c']\<rparr>"
  have ob: "objects s' = objects s @ [?c']" using add_objects [OF assms] .
  have x: "x = length (objects s)" and s': "s' = KeyRotator_add (length (objects s)) ?s1"
    and a: "\<exists>a\<in>set supportedAlgs. ?c ''alg'' = Some a"
    using assms unfolding add_unfold Let_def
    by (auto split: option.splits if_splits sum.splits)
  have l: "keys s' \<noteq> [] \<and> last (keys s') = x"
    unfolding s' x using rotator_add_last by blast
  have k: "(objects s' ! x) ''kid''
           = Some (case ?c ''kid'' of Some k \<Rightarrow> k | None \<Rightarrow> generateRandomKid randomBytes)"
    unfolding ob x by (auto split: option.splits)
  have g: "\<exists>a\<in>set supportedAlgs. (objects s' ! x) ''alg'' = Some a"
    unfolding ob x using a by auto
  from l k g show ?thesis by blast
qed

lemma generate_stored:
  assumes "JWKStore_generate generateKeyPair fromKeyLike randomBytes alg os s = (Inr x, s')"
  shows "keys s' \<noteq> [] \<and> last (keys s') = x \<and>
         (objects s' ! x) ''alg'' = Some alg \<and>
         (\<exists>pair members.
            generateKeyPair alg (if os \<noteq> None \<and> opts_crv (the os) \<noteq> None
                                 then opts_crv (the os) else None) = Inr pair \<and>
            fromKeyLike (privateKey pair) = Inr members \<and>
            (objects s' ! x) ''kid''
              = Some (case members ''kid'' of
                        Some k \<Rightarrow> k
                      | None \<Rightarrow>
                          (case os of
                             None \<Rightarrow> generateRandomKid randomBytes
                           | Some given \<Rightarrow>
                               (case opts_kid given of
                                  None \<Rightarrow> generateRandomKid randomBytes
                                | Some k \<Rightarrow> k))))"
proof -
  let ?go = "if os \<noteq> None \<and> opts_crv (the os) \<noteq> None then opts_crv (the os) else None"
  from assms obtain pair members
    where p: "generateKeyPair alg ?go = Inr pair" and m: "fromKeyLike (privateKey pair) = Inr members"
    unfolding generate_unfold by (auto split: sum.splits)
  let ?c = "if members ''kid'' \<noteq> None then members(''alg'' \<mapsto> alg)
            else if os \<noteq> None \<and> opts_kid (the os) \<noteq> None
                 then members(''alg'' \<mapsto> alg, ''kid'' \<mapsto> the (opts_kid (the os)))
                 else members(''alg'' \<mapsto> alg, ''kid'' \<mapsto> generateRandomKid randomBytes)"
  from assms have "(Inr (length (objects s)) :: error + addr,
      KeyRotator_add (length (objects s)) (s\<lparr>objects := objects s @ [?c]\<rparr>)) = (Inr x, s')"
    by (simp only: generate_unfold p m sum.case)
  then have x: "x = length (objects s)"
    and s': "s' = KeyRotator_add (length (objects s)) (s\<lparr>objects := objects s @ [?c]\<rparr>)"
    by blast+
  have ob: "objects s' = objects s @ [?c]" unfolding s' by (simp add: rotator_add_objects)
  have l: "keys s' \<noteq> [] \<and> last (keys s') = x"
    unfolding s' x using rotator_add_last by blast
  have a: "(objects s' ! x) ''alg'' = Some alg" unfolding ob x by simp
  have k: "(objects s' ! x) ''kid''
              = Some (case members ''kid'' of
                        Some k \<Rightarrow> k
                      | None \<Rightarrow>
                          (case os of
                             None \<Rightarrow> generateRandomKid randomBytes
                           | Some given \<Rightarrow>
                               (case opts_kid given of
                                  None \<Rightarrow> generateRandomKid randomBytes
                                | Some k \<Rightarrow> k)))"
    unfolding ob x by (auto split: option.splits)
  from l a p m k show ?thesis by blast
qed

text \<open>
  C5. Every record that enters the store should have a supported algorithm.
  \<open>JWKStore.add\<close> checks \<open>supportedAlgs\<close> (lemma \<open>add_stored\<close>);
  \<open>JWKStore.generate\<close> does not, and stores a record with whatever algorithm
  \<open>generateKeyPair\<close> accepts. With a \<open>generateKeyPair\<close> that accepts \<open>RSA-OAEP\<close>,
  which is not supported, the record is stored, and the export without private fields
  then throws.
\<close>

theorem generate_stores_unsupported_alg:
  "''RSA-OAEP'' \<notin> set supportedAlgs \<and>
   JWKStore_generate
     (\<lambda>alg crv. if alg = ''RSA-OAEP'' then Inr \<lparr>publicKey = ''pub'', privateKey = ''priv''\<rparr>
                 else Inl ''unsupported'')
     (\<lambda>k. Inr [''kty'' \<mapsto> ''RSA'', ''n'' \<mapsto> ''N'', ''e'' \<mapsto> ''AQAB'', ''d'' \<mapsto> ''D''])
     (\<lambda>n. replicate n 0) ''RSA-OAEP'' (Some \<lparr>opts_kid = Some ''k1'', opts_crv = None\<rparr>)
     \<lparr>objects = [], keys = []\<rparr>
   = (Inr 0,
      \<lparr>objects = [[''kty'' \<mapsto> ''RSA'', ''n'' \<mapsto> ''N'', ''e'' \<mapsto> ''AQAB'', ''d'' \<mapsto> ''D'',
                   ''alg'' \<mapsto> ''RSA-OAEP'', ''kid'' \<mapsto> ''k1'']],
       keys = [0]\<rparr>) \<and>
   fst (JWKStore_toJSON False
     \<lparr>objects = [[''kty'' \<mapsto> ''RSA'', ''n'' \<mapsto> ''N'', ''e'' \<mapsto> ''AQAB'', ''d'' \<mapsto> ''D'',
                   ''alg'' \<mapsto> ''RSA-OAEP'', ''kid'' \<mapsto> ''k1'']],
       keys = [0]\<rparr>) = Inl (UnsupportedAlg ''RSA-OAEP'')"
proof (intro conjI)
  show "''RSA-OAEP'' \<notin> set supportedAlgs"
    by (simp add: supportedAlgs_def privateToPublicTransformerMap_def)
  show "JWKStore_generate
     (\<lambda>alg crv. if alg = ''RSA-OAEP'' then Inr \<lparr>publicKey = ''pub'', privateKey = ''priv''\<rparr>
                 else Inl ''unsupported'')
     (\<lambda>k. Inr [''kty'' \<mapsto> ''RSA'', ''n'' \<mapsto> ''N'', ''e'' \<mapsto> ''AQAB'', ''d'' \<mapsto> ''D''])
     (\<lambda>n. replicate n 0) ''RSA-OAEP'' (Some \<lparr>opts_kid = Some ''k1'', opts_crv = None\<rparr>)
     \<lparr>objects = [], keys = []\<rparr>
   = (Inr 0,
      \<lparr>objects = [[''kty'' \<mapsto> ''RSA'', ''n'' \<mapsto> ''N'', ''e'' \<mapsto> ''AQAB'', ''d'' \<mapsto> ''D'',
                   ''alg'' \<mapsto> ''RSA-OAEP'', ''kid'' \<mapsto> ''k1'']],
       keys = [0]\<rparr>)"
    by (simp add: JWKStore_generate_def alloc_def normalizeKey_def KeyRotator_add_def
        findNext_def)
  show "fst (JWKStore_toJSON False
     \<lparr>objects = [[''kty'' \<mapsto> ''RSA'', ''n'' \<mapsto> ''N'', ''e'' \<mapsto> ''AQAB'', ''d'' \<mapsto> ''D'',
                   ''alg'' \<mapsto> ''RSA-OAEP'', ''kid'' \<mapsto> ''k1'']],
       keys = [0]\<rparr>) = Inl (UnsupportedAlg ''RSA-OAEP'')"
    by (simp add: JWKStore_toJSON_def KeyRotator_toJSON_def toJSON_body_def assertIsString_def
        inTransformerMap_def supportedAlgs_def privateToPublicTransformerMap_def
        objectPrototypeProperties_def)
qed

lemma toHex_Cons:
  "toHex (b # bs) = hexDigit (unat b div 16) # hexDigit (unat b mod 16) # toHex bs"
  by (simp add: toHex_def)

lemma toHex_nth:
  "i < length bs \<Longrightarrow>
   toHex bs ! (2 * i) = hexDigit (unat (bs ! i) div 16) \<and>
   toHex bs ! (2 * i + 1) = hexDigit (unat (bs ! i) mod 16)"
proof (induction bs arbitrary: i)
  case Nil
  then show ?case by simp
next
  case (Cons b bs)
  show ?case
  proof (cases i)
    case 0
    then show ?thesis by (simp add: toHex_Cons)
  next
    case (Suc j)
    with Cons.prems have "j < length bs" by simp
    from Cons.IH [OF this] Suc show ?thesis by (simp add: toHex_Cons)
  qed
qed

lemma hexDigit_high: "hexDigit (unat (b :: 8 word) div 16) = ''0123456789abcdef'' ! (unat b div 16)"
proof -
  have "unat b < 256" using unsigned_less [of b] by simp
  then have "unat b div 16 < 16" by simp
  then show ?thesis by (simp add: hexDigit_def)
qed

lemma hexDigit_low: "hexDigit (unat (b :: 8 word) mod 16) = ''0123456789abcdef'' ! (unat b mod 16)"
  by (simp add: hexDigit_def)

lemma generateRandomKid_digits:
  assumes "length (randomBytes 40) = 40" and "i < 40"
  shows "generateRandomKid randomBytes ! (2 * i)
           = ''0123456789abcdef'' ! (unat (randomBytes 40 ! i) div 16) \<and>
         generateRandomKid randomBytes ! (2 * i + 1)
           = ''0123456789abcdef'' ! (unat (randomBytes 40 ! i) mod 16)"
proof -
  from assms have "i < length (randomBytes 40)" by simp
  from toHex_nth [OF this] show ?thesis
    unfolding generateRandomKid_def hexDigit_high hexDigit_low .
qed

text \<open>
  The kid is not validated: \<open>JWKStore.generate\<close> with the empty string as
  \<open>opts.kid\<close> stores the generated key with the empty \<open>kid\<close>.
\<close>

theorem empty_kid_stored_counterexample:
  "fst (JWKStore_generate
          (\<lambda>alg crv. if alg = ''RS256'' then Inr \<lparr>publicKey = ''pub'', privateKey = ''priv''\<rparr>
                      else Inl ''unsupported'')
          (\<lambda>k. Inr [''kty'' \<mapsto> ''RSA'', ''n'' \<mapsto> ''N'', ''e'' \<mapsto> ''AQAB'', ''d'' \<mapsto> ''D'',
                     ''p'' \<mapsto> ''P'', ''q'' \<mapsto> ''Q'', ''dp'' \<mapsto> ''DP'', ''dq'' \<mapsto> ''DQ'',
                     ''qi'' \<mapsto> ''QI''])
          (\<lambda>n. replicate n 0) ''RS256'' (Some \<lparr>opts_kid = Some '''', opts_crv = None\<rparr>)
          \<lparr>objects = [], keys = []\<rparr>)
     = Inr 0 \<and>
   keys (snd (JWKStore_generate
          (\<lambda>alg crv. if alg = ''RS256'' then Inr \<lparr>publicKey = ''pub'', privateKey = ''priv''\<rparr>
                      else Inl ''unsupported'')
          (\<lambda>k. Inr [''kty'' \<mapsto> ''RSA'', ''n'' \<mapsto> ''N'', ''e'' \<mapsto> ''AQAB'', ''d'' \<mapsto> ''D'',
                     ''p'' \<mapsto> ''P'', ''q'' \<mapsto> ''Q'', ''dp'' \<mapsto> ''DP'', ''dq'' \<mapsto> ''DQ'',
                     ''qi'' \<mapsto> ''QI''])
          (\<lambda>n. replicate n 0) ''RS256'' (Some \<lparr>opts_kid = Some '''', opts_crv = None\<rparr>)
          \<lparr>objects = [], keys = []\<rparr>))
     = [0] \<and>
   (objects (snd (JWKStore_generate
          (\<lambda>alg crv. if alg = ''RS256'' then Inr \<lparr>publicKey = ''pub'', privateKey = ''priv''\<rparr>
                      else Inl ''unsupported'')
          (\<lambda>k. Inr [''kty'' \<mapsto> ''RSA'', ''n'' \<mapsto> ''N'', ''e'' \<mapsto> ''AQAB'', ''d'' \<mapsto> ''D'',
                     ''p'' \<mapsto> ''P'', ''q'' \<mapsto> ''Q'', ''dp'' \<mapsto> ''DP'', ''dq'' \<mapsto> ''DQ'',
                     ''qi'' \<mapsto> ''QI''])
          (\<lambda>n. replicate n 0) ''RS256'' (Some \<lparr>opts_kid = Some '''', opts_crv = None\<rparr>)
          \<lparr>objects = [], keys = []\<rparr>)) ! 0) ''kid''
     = Some ''''"
  by (simp add: JWKStore_generate_def alloc_def normalizeKey_def KeyRotator_add_def
      findNext_def)

text \<open>
  C6, as amended. The record that \<open>add\<close> or \<open>generate\<close> stores is the last entry of
  \<open>#keys\<close> and has a \<open>kid\<close>: the one of the JWK if it has one, else for
  \<open>generate\<close> the one of the options if they have one, else the hex encoding of
  \<open>randomBytes(40)\<close>; a given kid is stored as it is. If every stored record has a
  \<open>kid\<close> before a call of \<open>add\<close> or \<open>generate\<close>, every stored record has one after
  it. The hex encoding of the 40 bytes has 80 characters: the two at \<open>2i\<close> and
  \<open>2i + 1\<close> are the lower-case hex digits of the high and the low half of byte \<open>i\<close>.
\<close>

theorem stored_kid:
  "(JWKStore_add parseJwk randomBytes jwk s = (Inr x, s') \<longrightarrow>
      keys s' \<noteq> [] \<and> last (keys s') = x \<and>
      (objects s' ! x) ''kid''
        = Some (case (objects s ! jwk) ''kid'' of
                  Some k \<Rightarrow> k
                | None \<Rightarrow> generateRandomKid randomBytes)) \<and>
   (JWKStore_generate generateKeyPair fromKeyLike randomBytes alg os s = (Inr y, t) \<longrightarrow>
      keys t \<noteq> [] \<and> last (keys t) = y \<and>
      (\<exists>pair members.
         generateKeyPair alg (if os \<noteq> None \<and> opts_crv (the os) \<noteq> None
                              then opts_crv (the os) else None) = Inr pair \<and>
         fromKeyLike (privateKey pair) = Inr members \<and>
         (objects t ! y) ''kid''
           = Some (case members ''kid'' of
                     Some k \<Rightarrow> k
                   | None \<Rightarrow>
                       (case os of
                          None \<Rightarrow> generateRandomKid randomBytes
                        | Some given \<Rightarrow>
                            (case opts_kid given of
                               None \<Rightarrow> generateRandomKid randomBytes
                             | Some k \<Rightarrow> k))))) \<and>
   (wellFormed s \<and> kidsPresent s \<longrightarrow>
      kidsPresent (snd (JWKStore_add parseJwk randomBytes jwk s)) \<and>
      kidsPresent (snd (JWKStore_generate generateKeyPair fromKeyLike randomBytes alg os s))) \<and>
   (length (randomBytes 40) = 40 \<longrightarrow>
      length (generateRandomKid randomBytes) = 80 \<and>
      (\<forall>i<40. generateRandomKid randomBytes ! (2 * i)
                  = ''0123456789abcdef'' ! (unat (randomBytes 40 ! i) div 16) \<and>
               generateRandomKid randomBytes ! (2 * i + 1)
                  = ''0123456789abcdef'' ! (unat (randomBytes 40 ! i) mod 16)))"
proof (intro conjI impI allI)
  assume a: "JWKStore_add parseJwk randomBytes jwk s = (Inr x, s')"
  from add_stored [OF a] show "keys s' \<noteq> []" and "last (keys s') = x"
    and "(objects s' ! x) ''kid''
        = Some (case (objects s ! jwk) ''kid'' of
                  Some k \<Rightarrow> k
                | None \<Rightarrow> generateRandomKid randomBytes)" by blast+
next
  assume g: "JWKStore_generate generateKeyPair fromKeyLike randomBytes alg os s = (Inr y, t)"
  from generate_stored [OF g] show "keys t \<noteq> []" and "last (keys t) = y"
    and "\<exists>pair members.
         generateKeyPair alg (if os \<noteq> None \<and> opts_crv (the os) \<noteq> None
                              then opts_crv (the os) else None) = Inr pair \<and>
         fromKeyLike (privateKey pair) = Inr members \<and>
         (objects t ! y) ''kid''
           = Some (case members ''kid'' of
                     Some k \<Rightarrow> k
                   | None \<Rightarrow>
                       (case os of
                          None \<Rightarrow> generateRandomKid randomBytes
                        | Some given \<Rightarrow>
                            (case opts_kid given of
                               None \<Rightarrow> generateRandomKid randomBytes
                             | Some k \<Rightarrow> k)))" by blast+
next
  assume i: "wellFormed s \<and> kidsPresent s"
  have "JWKStore_add parseJwk randomBytes jwk s
        = (fst (JWKStore_add parseJwk randomBytes jwk s),
           snd (JWKStore_add parseJwk randomBytes jwk s))" by simp
  from add_invariants [OF _ _ this] i
  show "kidsPresent (snd (JWKStore_add parseJwk randomBytes jwk s))" by blast
  have "JWKStore_generate generateKeyPair fromKeyLike randomBytes alg os s
        = (fst (JWKStore_generate generateKeyPair fromKeyLike randomBytes alg os s),
           snd (JWKStore_generate generateKeyPair fromKeyLike randomBytes alg os s))" by simp
  from generate_invariants [OF _ _ this] i
  show "kidsPresent (snd (JWKStore_generate generateKeyPair fromKeyLike randomBytes alg os s))"
    by blast
next
  assume "length (randomBytes 40) = 40"
  then show "length (generateRandomKid randomBytes) = 80"
    by (simp add: generateRandomKid_def toHex_length)
next
  fix i :: nat
  assume l: "length (randomBytes 40) = 40" and i: "i < 40"
  from generateRandomKid_digits [of randomBytes i, OF l i]
  show "generateRandomKid randomBytes ! (2 * i)
                  = ''0123456789abcdef'' ! (unat (randomBytes 40 ! i) div 16)"
    and "generateRandomKid randomBytes ! (2 * i + 1)
                  = ''0123456789abcdef'' ! (unat (randomBytes 40 ! i) mod 16)" by blast+
qed

theorem stored_kid_witness:
  "(objects (snd (JWKStore_add (\<lambda>j. Inr (KeyObject Private)) (\<lambda>n. replicate n 171) 0
       \<lparr>objects = [[''kty'' \<mapsto> ''RSA'', ''alg'' \<mapsto> ''RS256'', ''n'' \<mapsto> ''N'', ''e'' \<mapsto> ''AQAB'',
                     ''d'' \<mapsto> ''D'', ''p'' \<mapsto> ''P'', ''q'' \<mapsto> ''Q'', ''dp'' \<mapsto> ''DP'',
                     ''dq'' \<mapsto> ''DQ'', ''qi'' \<mapsto> ''QI'']],
        keys = []\<rparr>)) ! 1) ''kid''
     = Some (generateRandomKid (\<lambda>n. replicate n 171)) \<and>
   last (keys (snd (JWKStore_add (\<lambda>j. Inr (KeyObject Private)) (\<lambda>n. replicate n 171) 0
       \<lparr>objects = [[''kty'' \<mapsto> ''RSA'', ''alg'' \<mapsto> ''RS256'', ''n'' \<mapsto> ''N'', ''e'' \<mapsto> ''AQAB'',
                     ''d'' \<mapsto> ''D'', ''p'' \<mapsto> ''P'', ''q'' \<mapsto> ''Q'', ''dp'' \<mapsto> ''DP'',
                     ''dq'' \<mapsto> ''DQ'', ''qi'' \<mapsto> ''QI'']],
        keys = []\<rparr>))) = 1 \<and>
   kidsPresent (snd (JWKStore_add (\<lambda>j. Inr (KeyObject Private)) (\<lambda>n. replicate n 171) 0
       \<lparr>objects = [[''kty'' \<mapsto> ''RSA'', ''alg'' \<mapsto> ''RS256'', ''n'' \<mapsto> ''N'', ''e'' \<mapsto> ''AQAB'',
                     ''d'' \<mapsto> ''D'', ''p'' \<mapsto> ''P'', ''q'' \<mapsto> ''Q'', ''dp'' \<mapsto> ''DP'',
                     ''dq'' \<mapsto> ''DQ'', ''qi'' \<mapsto> ''QI'']],
        keys = []\<rparr>)) \<and>
   length (generateRandomKid (\<lambda>n. replicate n 171)) = 80 \<and>
   generateRandomKid (\<lambda>n. replicate n 171) ! 0 = CHR ''a'' \<and>
   generateRandomKid (\<lambda>n. replicate n 171) ! 1 = CHR ''b'' \<and>
   generateRandomKid (\<lambda>n. replicate n 171) ! 78 = CHR ''a'' \<and>
   generateRandomKid (\<lambda>n. replicate n 171) ! 79 = CHR ''b''"
proof -
  let ?p = "\<lambda>j :: jwk. Inr (KeyObject Private) :: string + keyLike"
  let ?rb = "\<lambda>n. replicate n (171 :: 8 word)"
  let ?s = "\<lparr>objects = [[''kty'' \<mapsto> ''RSA'', ''alg'' \<mapsto> ''RS256'', ''n'' \<mapsto> ''N'', ''e'' \<mapsto> ''AQAB'',
                     ''d'' \<mapsto> ''D'', ''p'' \<mapsto> ''P'', ''q'' \<mapsto> ''Q'', ''dp'' \<mapsto> ''DP'',
                     ''dq'' \<mapsto> ''DQ'', ''qi'' \<mapsto> ''QI'']],
        keys = []\<rparr>"
  let ?r = "JWKStore_add ?p ?rb 0 ?s"
  note t = stored_kid [of ?p ?rb 0 ?s 1 "snd ?r"]
  have "fst ?r = Inr 1"
    by (simp add: add_unfold supportedAlgs_def privateToPublicTransformerMap_def Let_def)
  then have ev: "?r = (Inr 1, snd ?r)" by (simp add: prod_eq_iff)
  have inv: "wellFormed ?s \<and> kidsPresent ?s" by (simp add: wellFormed_def kidsPresent_def)
  have len: "length (?rb 40) = 40" by simp
  have k: "(case (objects ?s ! 0) ''kid'' of Some k \<Rightarrow> k | None \<Rightarrow> generateRandomKid ?rb)
           = generateRandomKid ?rb" by simp
  from t ev have a: "last (keys (snd ?r)) = 1" by blast
  from t ev have "(objects (snd ?r) ! 1) ''kid''
      = Some (case (objects ?s ! 0) ''kid'' of Some k \<Rightarrow> k | None \<Rightarrow> generateRandomKid ?rb)"
    by blast
  then have b: "(objects (snd ?r) ! 1) ''kid'' = Some (generateRandomKid ?rb)"
    unfolding k .
  from t inv have c: "kidsPresent (snd ?r)" by blast
  from t len have d: "length (generateRandomKid ?rb) = 80" by blast
  from t len have dig: "\<forall>i<40. generateRandomKid ?rb ! (2 * i)
                  = ''0123456789abcdef'' ! (unat (?rb 40 ! i) div 16) \<and>
               generateRandomKid ?rb ! (2 * i + 1)
                  = ''0123456789abcdef'' ! (unat (?rb 40 ! i) mod 16)" by blast
  from dig [rule_format, of 0] have e0: "generateRandomKid ?rb ! 0 = CHR ''a''"
    and e1: "generateRandomKid ?rb ! 1 = CHR ''b''" by simp_all
  from dig [rule_format, of 39] have e78: "generateRandomKid ?rb ! 78 = CHR ''a''"
    and e79: "generateRandomKid ?rb ! 79 = CHR ''b''" by simp_all
  from a b c d e0 e1 e78 e79 show ?thesis by blast
qed

end
